theory Spec2Isabelle
  imports Main "HOL-Library.Stream"
begin

section \<open>The Wordle guesser of \<^verbatim>\<open>guesser.py\<close>\<close>

text \<open>
  A shallow embedding of the class \<^verbatim>\<open>Guesser\<close>. Python strings are \<open>string\<close>
  (lists of 8-bit characters read as code points 0..255); the one-character strings
  that the code stores in lists (\<^verbatim>\<open>''\<close> or a letter) are strings of length 0 or 1.
  Exceptions are values of type \<open>error\<close>. Two things of the Python runtime are
  parameters of the model: the random source behind \<^verbatim>\<open>random.choice\<close> (a stream of
  natural numbers, one consumed per draw) and the iteration order of a \<^verbatim>\<open>set\<close> of
  strings (a function from the inserted sequence to the order of iteration).
\<close>

subsection \<open>Errors and state\<close>

datatype error =
    ValueError                  \<comment> \<open>\<^verbatim>\<open>raise ValueError("Last guess must be a 5-letter word")\<close>\<close>
  | IndexError_string_index     \<comment> \<open>\<^verbatim>\<open>s[i]\<close> with \<^verbatim>\<open>i >= len(s)\<close>\<close>
  | IndexError_list_index       \<comment> \<open>\<^verbatim>\<open>xs[i]\<close> or \<^verbatim>\<open>xs[i] = v\<close> with \<^verbatim>\<open>i >= len(xs)\<close>\<close>
  | IndexError_choice_empty     \<comment> \<open>\<^verbatim>\<open>random.choice\<close> of an empty sequence\<close>
  | ValueError_max_empty        \<comment> \<open>\<^verbatim>\<open>max\<close> of an empty iterable\<close>
  | UnboundLocalError           \<comment> \<open>a local variable read before any assignment\<close>

record guesser =
  word_list :: "string list"
  manual :: string
  tried :: "string list"
  first_guess :: string
  invalid_letters :: "char set"
  correct_positions :: "string list"
  misplaced_letters :: "char \<rightharpoonup> nat set"
  guess_count :: int
  first_guess_letters :: "char set"

text \<open>\<^verbatim>\<open>str.isalpha\<close> on one character, for the code points 0..255.\<close>

definition isalpha :: "char \<Rightarrow> bool" where
  "isalpha c =
     (let n = (of_char c :: nat)
      in (65 \<le> n \<and> n \<le> 90) \<or> (97 \<le> n \<and> n \<le> 122) \<or> n = 170 \<or> n = 181 \<or> n = 186
         \<or> (192 \<le> n \<and> n \<le> 214) \<or> (216 \<le> n \<and> n \<le> 246) \<or> (248 \<le> n \<and> n \<le> 255))"

text \<open>\<^verbatim>\<open>range(5)\<close>.\<close>

definition range5 :: "nat list" where
  "range5 = [0, 1, 2, 3, 4]"

subsection \<open>The feedback loop of \<^verbatim>\<open>get_guess\<close> (lines 118 to 129)\<close>

text \<open>
  One iteration per pair of \<^verbatim>\<open>enumerate(result)\<close>. The state is mutated in place, so
  an exception leaves the updates made so far: the result is the exception, if any,
  and the state reached.
\<close>

fun process_feedback :: "string \<Rightarrow> (nat \<times> char) list \<Rightarrow> guesser \<Rightarrow> error option \<times> guesser" where
  "process_feedback last_guess [] g = (None, g)"
| "process_feedback last_guess ((i, c) # rest) g =
     (if isalpha c then
        (if length last_guess \<le> i then (Some IndexError_string_index, g)
         else if length (correct_positions g) \<le> i then (Some IndexError_list_index, g)
         else process_feedback last_guess rest
                (g\<lparr>correct_positions := (correct_positions g)[i := [last_guess ! i]],
                   invalid_letters :=
                     (if last_guess ! i \<in> invalid_letters g
                      then invalid_letters g - {last_guess ! i} else invalid_letters g)\<rparr>))
      else if c = CHR ''-'' then
        (if length last_guess \<le> i then (Some IndexError_string_index, g)
         else process_feedback last_guess rest
                (g\<lparr>misplaced_letters := (misplaced_letters g)
                     (last_guess ! i \<mapsto>
                        insert i (case misplaced_letters g (last_guess ! i) of
                                    None \<Rightarrow> {} | Some P \<Rightarrow> P))\<rparr>))
      else if c = CHR ''+'' then
        (if length last_guess \<le> i then (Some IndexError_string_index, g)
         else if misplaced_letters g (last_guess ! i) = None
                 \<and> [last_guess ! i] \<notin> set (correct_positions g)
         then process_feedback last_guess rest
                (g\<lparr>invalid_letters := insert (last_guess ! i) (invalid_letters g)\<rparr>)
         else process_feedback last_guess rest g)
      else process_feedback last_guess rest g)"

subsection \<open>The candidate filter (lines 132 to 138)\<close>

text \<open>
  \<^verbatim>\<open>any(self._correct_positions[i] and word[i] != self._correct_positions[i] for i in range(5))\<close>:
  \<^verbatim>\<open>and\<close> reads \<^verbatim>\<open>word[i]\<close> only where the position is confirmed, and \<^verbatim>\<open>any\<close> stops at
  the first mismatch.
\<close>

fun any_mismatch :: "string list \<Rightarrow> string \<Rightarrow> nat list \<Rightarrow> error + bool" where
  "any_mismatch cp word [] = Inr False"
| "any_mismatch cp word (i # is) =
     (if length cp \<le> i then Inl IndexError_list_index
      else if cp ! i = [] then any_mismatch cp word is
      else if length word \<le> i then Inl IndexError_string_index
      else if [word ! i] \<noteq> cp ! i then Inr True
      else any_mismatch cp word is)"

text \<open>The condition of the comprehension, its four conjuncts in the order of the source.\<close>

definition word_passes :: "guesser \<Rightarrow> string \<Rightarrow> error + bool" where
  "word_passes g word =
     (if \<exists>letter \<in> invalid_letters g. letter \<in> set word then Inr False
      else case any_mismatch (correct_positions g) word range5 of
             Inl e \<Rightarrow> Inl e
           | Inr True \<Rightarrow> Inr False
           | Inr False \<Rightarrow>
               if list_ex (\<lambda>(i, letter). case misplaced_letters g letter of
                                            None \<Rightarrow> False | Some P \<Rightarrow> i \<in> P)
                    (enumerate 0 word)
               then Inr False
               else Inr (\<forall>letter \<in> dom (misplaced_letters g). letter \<in> set word))"

fun filter_words :: "guesser \<Rightarrow> string list \<Rightarrow> error + string list" where
  "filter_words g [] = Inr []"
| "filter_words g (word # ws) =
     (case word_passes g word of
        Inl e \<Rightarrow> Inl e
      | Inr b \<Rightarrow> (case filter_words g ws of
                    Inl e \<Rightarrow> Inl e
                  | Inr r \<Rightarrow> Inr (if b then word # r else r)))"

definition filtered_word_list :: "guesser \<Rightarrow> error + string list" where
  "filtered_word_list g = filter_words g (word_list g)"

text \<open>
  The candidate filter as the specification words it: a word qualifies iff (a) it has
  no invalid letter, (b) it agrees with every confirmed position, (c) it has no
  misplaced letter at a position recorded for that letter, and (d) it contains every
  misplaced letter.
\<close>

definition qualifies :: "guesser \<Rightarrow> string \<Rightarrow> bool" where
  "qualifies g w \<longleftrightarrow>
     (\<forall>letter \<in> invalid_letters g. letter \<notin> set w)
   \<and> (\<forall>i < 5. correct_positions g ! i \<noteq> [] \<longrightarrow> [w ! i] = correct_positions g ! i)
   \<and> (\<forall>L P. misplaced_letters g L = Some P \<longrightarrow> (\<forall>p \<in> P. p < length w \<longrightarrow> w ! p \<noteq> L))
   \<and> (\<forall>L \<in> dom (misplaced_letters g). L \<in> set w)"

subsection \<open>The frequency analysis (lines 37 to 94)\<close>

text \<open>
  A Python \<^verbatim>\<open>dict\<close> iterates in insertion order, and the analysis depends on it: the
  tallies are association lists with distinct keys, a new key going to the end.
\<close>

type_synonym freq = "(char \<times> nat) list"

text \<open>\<^verbatim>\<open>d[k] = d.get(k, 0) + 1\<close>\<close>

fun dict_incr :: "freq \<Rightarrow> char \<Rightarrow> freq" where
  "dict_incr [] k = [(k, 1)]"
| "dict_incr ((k', v) # d) k = (if k' = k then (k', v + 1) # d else (k', v) # dict_incr d k)"

text \<open>\<^verbatim>\<open>d[k]\<close> for a key of \<^verbatim>\<open>d\<close> (the code reads only keys that are present).\<close>

definition dict_get :: "freq \<Rightarrow> char \<Rightarrow> nat" where
  "dict_get d k = (case map_of d k of Some v \<Rightarrow> v | None \<Rightarrow> 0)"

text \<open>The body of \<^verbatim>\<open>for i in range(5)\<close> for one word; \<^verbatim>\<open>word[i]\<close> raises on a short word.\<close>

fun tally_word :: "string \<Rightarrow> nat list \<Rightarrow> freq list \<times> freq \<Rightarrow> error + (freq list \<times> freq)" where
  "tally_word word [] st = Inr st"
| "tally_word word (i # is) (letter_frequency, overall_frequency) =
     (if length word \<le> i then Inl IndexError_string_index
      else tally_word word is
             (letter_frequency[i := dict_incr (letter_frequency ! i) (word ! i)],
              dict_incr overall_frequency (word ! i)))"

fun tally :: "string list \<Rightarrow> freq list \<times> freq \<Rightarrow> error + (freq list \<times> freq)" where
  "tally [] st = Inr st"
| "tally (word # ws) st =
     (case tally_word word range5 st of Inl e \<Rightarrow> Inl e | Inr st' \<Rightarrow> tally ws st')"

text \<open>
  \<^verbatim>\<open>sorted(xs, key=f, reverse=True)\<close>: Python's sort is stable, also with
  \<^verbatim>\<open>reverse=True\<close>, so equal keys keep their order; \<open>sort_key\<close> is stable and
  ascending, hence the negated key.
\<close>

definition sorted_desc :: "('a \<Rightarrow> nat) \<Rightarrow> 'a list \<Rightarrow> 'a list" where
  "sorted_desc f xs = sort_key (\<lambda>x. - int (f x)) xs"

text \<open>
  The inner \<^verbatim>\<open>for pos in range(5)\<close> of the assignment loop, on the pair
  \<^verbatim>\<open>(best_position, highest_freq)\<close>.
\<close>

fun best_position :: "char \<Rightarrow> freq list \<Rightarrow> string list \<Rightarrow> nat list \<Rightarrow> nat option \<times> int
                      \<Rightarrow> nat option \<times> int" where
  "best_position letter slf chosen_word [] st = st"
| "best_position letter slf chosen_word (pos # ps) (best, highest_freq) =
     (case map_of (slf ! pos) letter of
        None \<Rightarrow> best_position letter slf chosen_word ps (best, highest_freq)
      | Some letter_freq \<Rightarrow>
          if chosen_word ! pos = [] \<and> int letter_freq > highest_freq
          then best_position letter slf chosen_word ps (Some pos, int letter_freq)
          else best_position letter slf chosen_word ps (best, highest_freq))"

text \<open>\<^verbatim>\<open>for letter in top_five_letters\<close> on the pair \<^verbatim>\<open>(chosen_word, used_letters)\<close>.\<close>

fun assign_letters :: "freq list \<Rightarrow> char list \<Rightarrow> string list \<times> char set \<Rightarrow> string list \<times> char set" where
  "assign_letters slf [] st = st"
| "assign_letters slf (letter # ls) (chosen_word, used_letters) =
     (case fst (best_position letter slf chosen_word range5 (None, - 1)) of
        None \<Rightarrow> assign_letters slf ls (chosen_word, used_letters)
      | Some p \<Rightarrow> assign_letters slf ls (chosen_word[p := [letter]], insert letter used_letters))"

text \<open>The inner \<^verbatim>\<open>for letter in top_five_letters: if letter not in used_letters: ... break\<close>.\<close>

fun first_unused :: "char list \<Rightarrow> char set \<Rightarrow> char option" where
  "first_unused [] used_letters = None"
| "first_unused (letter # ls) used_letters =
     (if letter \<notin> used_letters then Some letter else first_unused ls used_letters)"

fun fill_remaining :: "char list \<Rightarrow> nat list \<Rightarrow> string list \<times> char set \<Rightarrow> string list \<times> char set" where
  "fill_remaining top_five [] st = st"
| "fill_remaining top_five (i # is) (chosen_word, used_letters) =
     (if chosen_word ! i = [] then
        (case first_unused top_five used_letters of
           Some letter \<Rightarrow>
             fill_remaining top_five is (chosen_word[i := [letter]], insert letter used_letters)
         | None \<Rightarrow> fill_remaining top_five is (chosen_word, used_letters))
      else fill_remaining top_five is (chosen_word, used_letters))"

definition top_five_letters :: "freq \<Rightarrow> char list" where
  "top_five_letters overall_frequency =
     take 5 (sorted_desc (dict_get overall_frequency) (map fst overall_frequency))"

definition analysis :: "string list \<Rightarrow> error + string" where
  "analysis wl =
     (case tally wl (replicate 5 [], []) of
        Inl e \<Rightarrow> Inl e
      | Inr (letter_frequency, overall_frequency) \<Rightarrow>
          let sorted_letter_frequency = map (sorted_desc snd) letter_frequency;
              top_five = top_five_letters overall_frequency;
              st = assign_letters sorted_letter_frequency top_five (replicate 5 [], {});
              st' = fill_remaining top_five range5 st
          in Inr (concat (fst st')))"

subsection \<open>Construction and restart (lines 13 to 35)\<close>

text \<open>
  The word list is read from a YAML file; here it is the argument \<open>wl\<close>. The
  constructor fails when the analysis does.
\<close>

definition guesser_init :: "string \<Rightarrow> string list \<Rightarrow> error + guesser" where
  "guesser_init m wl =
     (case analysis wl of
        Inl e \<Rightarrow> Inl e
      | Inr fg \<Rightarrow>
          Inr \<lparr>word_list = wl, manual = m, tried = [], first_guess = fg,
               invalid_letters = {}, correct_positions = replicate 5 [],
               misplaced_letters = Map.empty, guess_count = 0,
               first_guess_letters = set fg\<rparr>)"

definition restart_game :: "guesser \<Rightarrow> guesser" where
  "restart_game g =
     g\<lparr>tried := [], invalid_letters := {}, correct_positions := replicate 5 [],
       misplaced_letters := Map.empty, guess_count := 0,
       first_guess_letters := set (first_guess g)\<rparr>"

subsection \<open>Random choice\<close>

text \<open>\<^verbatim>\<open>random.choice(seq)\<close>: one number of the random source picks the element.\<close>

definition choice :: "'a list \<Rightarrow> nat stream \<Rightarrow> error + ('a \<times> nat stream)" where
  "choice xs rs =
     (if xs = [] then Inl IndexError_choice_empty
      else Inr (xs ! (shd rs mod length xs), stl rs))"

subsection \<open>The second guess (lines 144 to 180)\<close>

text \<open>
  \<^verbatim>\<open>for letter in sorted_letters\<close> with its \<^verbatim>\<open>break\<close>, on the pair
  \<^verbatim>\<open>(second_guess, used_letters)\<close>.
\<close>

fun build_probe :: "char set \<Rightarrow> char list \<Rightarrow> string \<times> char set \<Rightarrow> string" where
  "build_probe fgl [] (second_guess, used_letters) = second_guess"
| "build_probe fgl (letter # ls) (second_guess, used_letters) =
     (let st = (if letter \<notin> fgl \<and> letter \<notin> used_letters
                then (second_guess @ [letter], insert letter used_letters)
                else (second_guess, used_letters))
      in if length (fst st) = 5 then fst st else build_probe fgl ls st)"

text \<open>
  \<^verbatim>\<open>letter_entropy\<close> and \<^verbatim>\<open>sorted_letters\<close>. The keys come from iterating
  \<^verbatim>\<open>set("".join(filtered_word_list))\<close>, whose order is the runtime's: \<open>ord\<close> maps the
  joined string to that order.
\<close>

definition letter_entropy :: "(string \<Rightarrow> string) \<Rightarrow> string list \<Rightarrow> freq" where
  "letter_entropy ord filtered =
     map (\<lambda>letter. (letter, length (filter (\<lambda>word. letter \<in> set word) filtered)))
       (ord (concat filtered))"

definition sorted_letters_of :: "(string \<Rightarrow> string) \<Rightarrow> string list \<Rightarrow> char list" where
  "sorted_letters_of ord filtered =
     (let le = letter_entropy ord filtered in sorted_desc (dict_get le) (map fst le))"

text \<open>
  The branch \<^verbatim>\<open>if self.guess_count == 1\<close>. \<^verbatim>\<open>sorted_letters\<close> is assigned in the
  \<^verbatim>\<open>else\<close> branch only: \<open>None\<close> is the unbound variable.
\<close>

definition second_guess :: "(string \<Rightarrow> string) \<Rightarrow> guesser \<Rightarrow> string list \<Rightarrow> nat stream
                            \<Rightarrow> error + (string \<times> nat stream)" where
  "second_guess ord g filtered rs =
     (let (sorted_letters, second_guess_list) =
            (if card (dom (misplaced_letters g)) > 2
             then (None,
                   filter (\<lambda>word. \<forall>letter \<in> dom (misplaced_letters g). letter \<in> set word) filtered)
             else (Some (sorted_letters_of ord filtered),
                   filter (\<lambda>word. \<not> (\<exists>letter \<in> set word. letter \<in> first_guess_letters g)) filtered))
      in case second_guess_list of
           w # _ \<Rightarrow> Inr (w, rs)
         | [] \<Rightarrow>
            (case sorted_letters of
               None \<Rightarrow> Inl UnboundLocalError
             | Some sl \<Rightarrow>
                 let probe = build_probe (first_guess_letters g) sl ([], {})
                 in if length probe < 5 then choice filtered rs else Inr (probe, rs)))"

subsection \<open>The single missing letter (lines 185 to 200)\<close>

definition alphabet :: string where
  "alphabet = ''abcdefghijklmnopqrstuvwxyz''"

text \<open>\<^verbatim>\<open>while len(guessie) < 5: guessie.append(choice('abcdefghijklmnopqrstuvwxyz'))\<close>\<close>

function pad_guessie :: "string \<Rightarrow> nat stream \<Rightarrow> error + (string \<times> nat stream)" where
  "pad_guessie guessie rs =
     (if length guessie < 5 then
        (case choice alphabet rs of
           Inl e \<Rightarrow> Inl e
         | Inr (c, rs') \<Rightarrow> pad_guessie (guessie @ [c]) rs')
      else Inr (guessie, rs))"
  by pat_completeness auto
termination
  by (relation "measure (\<lambda>(guessie, rs). 5 - length guessie)") auto

text \<open>
  \<^verbatim>\<open>self._correct_positions.index('')\<close> is the number of leading confirmed positions;
  the branch is entered only when exactly one entry is empty.
\<close>

definition single_missing :: "(string \<Rightarrow> string) \<Rightarrow> guesser \<Rightarrow> string list \<Rightarrow> nat stream
                              \<Rightarrow> error + (string \<times> nat stream)" where
  "single_missing ord g filtered rs =
     (let missing_position = length (takeWhile (\<lambda>x. x \<noteq> []) (correct_positions g))
      in if \<exists>word \<in> set filtered. length word \<le> missing_position
         then Inl IndexError_string_index
         else case pad_guessie (ord (map (\<lambda>word. word ! missing_position) filtered)) rs of
                Inl e \<Rightarrow> Inl e
              | Inr (guessie, rs') \<Rightarrow> Inr (take 5 guessie, rs'))"

subsection \<open>Search-space splitting (lines 205 to 210)\<close>

text \<open>The keys of a dict comprehension over a list: first occurrences, in order.\<close>

definition dict_keys :: "'a list \<Rightarrow> 'a list" where
  "dict_keys xs = fold (\<lambda>x acc. if x \<in> set acc then acc else acc @ [x]) xs []"

definition word_score :: "string list \<Rightarrow> string \<Rightarrow> nat" where
  "word_score filtered word =
     length (filter (\<lambda>other_word.
               length (filter (\<lambda>(a, b). a \<noteq> b) (zip word other_word)) = 1) filtered)"

text \<open>\<^verbatim>\<open>max(iterable, key=f)\<close> keeps the first of the maximal elements.\<close>

fun max_key :: "('a \<Rightarrow> nat) \<Rightarrow> 'a \<Rightarrow> 'a list \<Rightarrow> 'a" where
  "max_key f best [] = best"
| "max_key f best (x # xs) = max_key f (if f x > f best then x else best) xs"

definition best_scoring :: "string list \<Rightarrow> error + string" where
  "best_scoring filtered =
     (case dict_keys filtered of
        [] \<Rightarrow> Inl ValueError_max_empty
      | w # ws \<Rightarrow> Inr (max_key (word_score filtered) w ws))"

subsection \<open>\<^verbatim>\<open>get_guess\<close> (lines 97 to 227)\<close>

text \<open>The chain \<^verbatim>\<open>if ... elif ... elif ... else\<close> of lines 144 to 213.\<close>

definition choose_guess :: "(string \<Rightarrow> string) \<Rightarrow> guesser \<Rightarrow> string list \<Rightarrow> nat stream
                            \<Rightarrow> error + (string \<times> nat stream)" where
  "choose_guess ord g filtered rs =
     (if guess_count g = 1 then second_guess ord g filtered rs
      else if count_list (correct_positions g) [] = 1 \<and> length filtered > 3 \<and> guess_count g < 6
           then single_missing ord g filtered rs
      else if filtered \<noteq> [] then
        (case best_scoring filtered of Inl e \<Rightarrow> Inl e | Inr w \<Rightarrow> Inr (w, rs))
      else choice filtered rs)"

text \<open>
  The \<^verbatim>\<open>else\<close> branch of \<^verbatim>\<open>if not self._tried\<close>: the guess, the filtered list and
  the updated state, or an exception with the state it leaves.
\<close>

definition later_guess :: "(string \<Rightarrow> string) \<Rightarrow> guesser \<Rightarrow> string \<Rightarrow> nat stream
                           \<Rightarrow> (error \<times> guesser) + (string \<times> string list \<times> guesser \<times> nat stream)" where
  "later_guess ord g result rs =
     (let last_guess = last (tried g)
      in if length last_guess \<noteq> 5 then Inl (ValueError, g)
         else case process_feedback last_guess (enumerate 0 result) g of
                (Some e, g') \<Rightarrow> Inl (e, g')
              | (None, g') \<Rightarrow>
                 (case filtered_word_list g' of
                    Inl e \<Rightarrow> Inl (e, g')
                  | Inr filtered \<Rightarrow>
                     (case choose_guess ord g' filtered rs of
                        Inl e \<Rightarrow> Inl (e, g')
                      | Inr (guess, rs') \<Rightarrow> Inr (guess, filtered, g', rs'))))"

text \<open>
  \<^verbatim>\<open>while guess in self._tried: guess = choice(filtered_word_list)\<close>. The loop has no
  bound: \<open>None\<close> is the run that never leaves it. On the first call
  \<^verbatim>\<open>filtered_word_list\<close> is unbound (\<open>flt = None\<close>).
\<close>

partial_function (option) resample :: "string list \<Rightarrow> string list option \<Rightarrow> string \<Rightarrow> nat stream
                                       \<Rightarrow> (error + (string \<times> nat stream)) option" where
  "resample trd flt guess rs =
     (if guess \<in> set trd then
        (case flt of
           None \<Rightarrow> Some (Inl UnboundLocalError)
         | Some filtered \<Rightarrow>
            (case choice filtered rs of
               Inl e \<Rightarrow> Some (Inl e)
             | Inr (guess', rs') \<Rightarrow> resample trd flt guess' rs'))
      else Some (Inr (guess, rs)))"

text \<open>
  \<open>get_guess ord inp g result rs\<close>: \<open>inp\<close> is what \<^verbatim>\<open>console.input\<close> returns in
  manual mode. The result is \<open>None\<close> when the call does not return, an exception with
  the state it leaves, or the guess with the new state and the rest of the random
  source.
\<close>

definition get_guess :: "(string \<Rightarrow> string) \<Rightarrow> string \<Rightarrow> guesser \<Rightarrow> string \<Rightarrow> nat stream
                         \<Rightarrow> ((error \<times> guesser) + (string \<times> guesser \<times> nat stream)) option" where
  "get_guess ord inp g result rs =
     (if manual g = ''manual'' then Some (Inr (inp, g, rs))
      else case (if tried g = [] then Inr (first_guess g, None, g, rs)
                 else (case later_guess ord g result rs of
                         Inl e \<Rightarrow> Inl e
                       | Inr (guess, filtered, g', rs') \<Rightarrow> Inr (guess, Some filtered, g', rs'))) of
             Inl e \<Rightarrow> Some (Inl e)
           | Inr (guess, flt, g', rs') \<Rightarrow>
              (case resample (tried g') flt guess rs' of
                 None \<Rightarrow> None
               | Some (Inl e) \<Rightarrow> Some (Inl (e, g'))
               | Some (Inr (guess', rs'')) \<Rightarrow>
                   Some (Inr (guess',
                              g'\<lparr>tried := tried g' @ [guess'], guess_count := guess_count g' + 1\<rparr>,
                              rs''))))"

text \<open>A set iteration order of the runtime: each element once.\<close>

definition valid_order :: "(string \<Rightarrow> string) \<Rightarrow> bool" where
  "valid_order ord \<longleftrightarrow> (\<forall>s. distinct (ord s) \<and> set (ord s) = set s)"

subsection \<open>Example dictionaries and states\<close>

definition words1 :: "string list" where
  "words1 = [''abcde'', ''bcdea'', ''fgghi'']"

definition words2 :: "string list" where
  "words2 = [''apple'', ''angle'', ''ample'']"

definition words3 :: "string list" where
  "words3 = [''abcde'']"

text \<open>The state of a new engine with word list \<open>wl\<close> and first guess \<open>fg\<close>.\<close>

definition fresh :: "string list \<Rightarrow> string \<Rightarrow> guesser" where
  "fresh wl fg =
     \<lparr>word_list = wl, manual = ''auto'', tried = [], first_guess = fg,
      invalid_letters = {}, correct_positions = [[], [], [], [], []],
      misplaced_letters = Map.empty, guess_count = 0,
      first_guess_letters = set fg\<rparr>"

text \<open>The same engine after its first guess.\<close>

definition opened :: "string list \<Rightarrow> string \<Rightarrow> guesser" where
  "opened wl fg = (fresh wl fg)\<lparr>tried := [fg], guess_count := 1\<rparr>"

subsection \<open>Reachable states\<close>

text \<open>What \<^verbatim>\<open>get_guess\<close> never changes before its last two statements.\<close>

definition same_frame :: "guesser \<Rightarrow> guesser \<Rightarrow> bool" where
  "same_frame g g' \<longleftrightarrow>
     word_list g' = word_list g \<and> manual g' = manual g \<and> tried g' = tried g
   \<and> first_guess g' = first_guess g \<and> guess_count g' = guess_count g
   \<and> first_guess_letters g' = first_guess_letters g
   \<and> length (correct_positions g') = length (correct_positions g)"

text \<open>
  The states of an engine built in mode \<open>m\<close> on the word list \<open>wl\<close>: after
  construction, after a call of \<^verbatim>\<open>get_guess\<close> that returns, after one that raises (the
  object keeps the updates made before the exception), and after a restart.
\<close>

inductive reachable :: "string \<Rightarrow> string list \<Rightarrow> guesser \<Rightarrow> bool" for m wl where
  constructed: "guesser_init m wl = Inr g \<Longrightarrow> reachable m wl g"
| guessed: "reachable m wl g \<Longrightarrow> get_guess ord inp g result rs = Some (Inr (guess, g', rs'))
            \<Longrightarrow> reachable m wl g'"
| raised: "reachable m wl g \<Longrightarrow> get_guess ord inp g result rs = Some (Inl (e, g'))
            \<Longrightarrow> reachable m wl g'"
| restarted: "reachable m wl g \<Longrightarrow> reachable m wl (restart_game g)"

definition after_two :: guesser where
  "after_two = (opened words1 ''abcde'')
      \<lparr>tried := [''abcde'', ''fgghi''], guess_count := 2,
        invalid_letters := {CHR ''e'', CHR ''d'', CHR ''c'', CHR ''b'', CHR ''a''}\<rparr>"

definition after_three :: guesser where
  "after_three = after_two
      \<lparr>invalid_letters := {CHR ''i'', CHR ''h'', CHR ''g'', CHR ''f'',
                            CHR ''e'', CHR ''d'', CHR ''c'', CHR ''b'', CHR ''a''},
        misplaced_letters := [CHR ''g'' \<mapsto> {2}]\<rparr>"

definition all_misplaced :: guesser where
  "all_misplaced = (opened words2 ''anple'')
      \<lparr>misplaced_letters := [CHR ''a'' \<mapsto> {0}, CHR ''n'' \<mapsto> {1}, CHR ''p'' \<mapsto> {2},
                               CHR ''l'' \<mapsto> {3}, CHR ''e'' \<mapsto> {4}]\<rparr>"

definition exact_anple :: guesser where
  "exact_anple = (opened words2 ''anple'')
      \<lparr>correct_positions := [''a'', ''n'', ''p'', ''l'', ''e'']\<rparr>"

subsection \<open>Auxiliary predicates\<close>

text \<open>The feedback symbols the loop acts on: a letter, \<^verbatim>\<open>-\<close> or \<^verbatim>\<open>+\<close>.\<close>

definition is_mark :: "char \<Rightarrow> bool" where
  "is_mark c \<longleftrightarrow> isalpha c \<or> c = CHR ''-'' \<or> c = CHR ''+''"

text \<open>What the misplaced-letter records of a state require of the word \<open>w\<close>.\<close>

definition fits_misplaced :: "guesser \<Rightarrow> string \<Rightarrow> bool" where
  "fits_misplaced g w \<longleftrightarrow>
     (\<forall>L P. misplaced_letters g L = Some P \<longrightarrow> (\<forall>p \<in> P. p < length w \<longrightarrow> w ! p \<noteq> L))
   \<and> (\<forall>L \<in> dom (misplaced_letters g). L \<in> set w)"

subsection \<open>Invariants of the analysis loops\<close>



subsection \<open>Feedback consistent with a hidden target\<close>

text \<open>
  Modelled from the spec: the game's scoring of a guess is not part of
  \<^verbatim>\<open>guesser.py\<close>. A feedback string of 5 symbols is consistent with a target when a
  letter symbol stands only where the guess has the target's letter, \<^verbatim>\<open>-\<close> only where
  the guess has a letter of the target that is not the target's letter there, and
  \<^verbatim>\<open>+\<close> on a letter that does occur in the target only when another occurrence of that
  letter in the guess is marked exact, or an earlier one present elsewhere (the
  repeated-letter case of section 4.2; a \<^verbatim>\<open>+\<close> on a letter that the target lacks is
  always consistent).
\<close>

definition consistent :: "string \<Rightarrow> string \<Rightarrow> string \<Rightarrow> bool" where
  "consistent target guess result \<longleftrightarrow>
     length result = 5
   \<and> (\<forall>i < 5.
        (isalpha (result ! i) \<longrightarrow> guess ! i = target ! i)
      \<and> (result ! i = CHR ''-'' \<longrightarrow> guess ! i \<in> set target \<and> guess ! i \<noteq> target ! i)
      \<and> (result ! i = CHR ''+'' \<and> guess ! i \<in> set target \<longrightarrow>
           (\<exists>j < 5. guess ! j = guess ! i
                   \<and> (isalpha (result ! j) \<or> j < i \<and> result ! j = CHR ''-''))))"

text \<open>The same for the symbols \<open>xs\<close> still to be read, from index \<open>n\<close> on; \<open>seen\<close> are the
  letters of the guess already marked exact or present elsewhere.\<close>

definition consistent_from :: "string \<Rightarrow> string \<Rightarrow> nat \<Rightarrow> string \<Rightarrow> char set \<Rightarrow> bool" where
  "consistent_from target guess n xs seen \<longleftrightarrow>
     n + length xs \<le> 5
   \<and> (\<forall>j < length xs.
        (isalpha (xs ! j) \<longrightarrow> guess ! (n + j) = target ! (n + j))
      \<and> (xs ! j = CHR ''-'' \<longrightarrow> guess ! (n + j) \<in> set target \<and> guess ! (n + j) \<noteq> target ! (n + j))
      \<and> (xs ! j = CHR ''+'' \<and> guess ! (n + j) \<in> set target \<longrightarrow>
           guess ! (n + j) \<in> seen
           \<or> (\<exists>k < length xs. guess ! (n + k) = guess ! (n + j)
                   \<and> (isalpha (xs ! k) \<or> k < j \<and> xs ! k = CHR ''-''))))"

text \<open>The state \<open>g\<close> is sound for the target, up to the invalid letters that a later
  exact mark of \<open>xs\<close> will remove.\<close>

definition sound_mid :: "string \<Rightarrow> string \<Rightarrow> nat \<Rightarrow> string \<Rightarrow> char set \<Rightarrow> guesser \<Rightarrow> bool" where
  "sound_mid target guess n xs seen g \<longleftrightarrow>
     length (correct_positions g) = 5
   \<and> (\<forall>i < 5. correct_positions g ! i \<noteq> [] \<longrightarrow> correct_positions g ! i = [target ! i])
   \<and> (\<forall>L P. misplaced_letters g L = Some P \<longrightarrow> L \<in> set target \<and> (\<forall>p \<in> P. p < 5 \<longrightarrow> target ! p \<noteq> L))
   \<and> (\<forall>L \<in> seen. misplaced_letters g L \<noteq> None \<or> [L] \<in> set (correct_positions g))
   \<and> (\<forall>L \<in> invalid_letters g. L \<in> set target \<longrightarrow>
         (\<exists>j < length xs. guess ! (n + j) = L \<and> isalpha (xs ! j)))"

text \<open>The state \<open>g\<close> constrains a word at least as much as \<open>g0\<close> does.\<close>

definition tighter :: "guesser \<Rightarrow> guesser \<Rightarrow> bool" where
  "tighter g0 g \<longleftrightarrow>
     invalid_letters g0 \<subseteq> invalid_letters g
   \<and> (\<forall>i < 5. correct_positions g0 ! i \<noteq> [] \<longrightarrow> correct_positions g ! i = correct_positions g0 ! i)
   \<and> (\<forall>L P. misplaced_letters g0 L = Some P \<longrightarrow>
         (\<exists>P'. misplaced_letters g L = Some P' \<and> P \<subseteq> P'))"

text \<open>
  The states of a game against the hidden word \<open>target\<close>: every feedback string
  given after the first call is consistent with the target and the previous guess.
\<close>

inductive consistent_run :: "string \<Rightarrow> string list \<Rightarrow> string \<Rightarrow> guesser \<Rightarrow> bool"
  for m wl target where
  start: "guesser_init m wl = Inr g \<Longrightarrow> consistent_run m wl target g"
| turn: "consistent_run m wl target g \<Longrightarrow>
         tried g = [] \<or> consistent target (last (tried g)) result \<Longrightarrow>
         get_guess ord inp g result rs = Some (Inr (guess, g', rs')) \<Longrightarrow>
         consistent_run m wl target g'"
| again: "consistent_run m wl target g \<Longrightarrow> consistent_run m wl target (restart_game g)"

text \<open>A game on five words against the target \<^verbatim>\<open>kglmn\<close>.\<close>

definition words5 :: "string list" where
  "words5 = [''abcde'', ''bcdea'', ''cdeab'', ''fgghi'', ''kglmn'']"

definition two_tried :: guesser where
  "two_tried = (opened words5 ''abcde'')
      \<lparr>tried := [''abcde'', ''fgghi''], guess_count := 2,
        invalid_letters := {CHR ''e'', CHR ''d'', CHR ''c'', CHR ''b'', CHR ''a''}\<rparr>"

definition three_tried :: guesser where
  "three_tried = two_tried
      \<lparr>tried := [''abcde'', ''fgghi'', ''kglmn''], guess_count := 3,
        invalid_letters := {CHR ''i'', CHR ''h'', CHR ''f'',
                            CHR ''e'', CHR ''d'', CHR ''c'', CHR ''b'', CHR ''a''},
        correct_positions := [[], ''g'', [], [], []]\<rparr>"

text \<open>No confirmed letter is an invalid letter.\<close>

definition confirmed_valid :: "guesser \<Rightarrow> bool" where
  "confirmed_valid g \<longleftrightarrow> (\<forall>L. [L] \<in> set (correct_positions g) \<longrightarrow> L \<notin> invalid_letters g)"

section \<open>Properties\<close>

subsection \<open>Auxiliary facts\<close>

lemma replicate5: "replicate 5 x = [x, x, x, x, x]"
  by (simp add: numeral_eq_Suc)

lemma isalpha_lower:
  "isalpha CHR ''a''" "isalpha CHR ''b''" "isalpha CHR ''c''" "isalpha CHR ''d''"
  "isalpha CHR ''e''" "isalpha CHR ''f''" "isalpha CHR ''g''" "isalpha CHR ''h''"
  "isalpha CHR ''i''" "isalpha CHR ''l''" "isalpha CHR ''n''" "isalpha CHR ''p''"
  by (simp_all add: isalpha_def)

lemma not_isalpha_marks: "\<not> isalpha CHR ''+''" "\<not> isalpha CHR ''-''"
  by (simp_all add: isalpha_def)

lemmas eval_analysis =
  guesser_init_def analysis_def range5_def top_five_letters_def sorted_desc_def dict_get_def
  replicate5

lemma process_feedback_frame:
  "process_feedback lg ps g = (e, g') \<Longrightarrow>
     word_list g' = word_list g \<and> manual g' = manual g \<and> tried g' = tried g
   \<and> first_guess g' = first_guess g \<and> guess_count g' = guess_count g
   \<and> first_guess_letters g' = first_guess_letters g
   \<and> length (correct_positions g') = length (correct_positions g)"
  by (induction lg ps g rule: process_feedback.induct) (auto split: if_splits)

lemma any_mismatch_iff:
  "\<forall>i \<in> set is. i < length cp \<and> i < length word \<Longrightarrow>
   any_mismatch cp word is = Inr (\<exists>i \<in> set is. cp ! i \<noteq> [] \<and> [word ! i] \<noteq> cp ! i)"
  by (induction "is") auto

lemma list_ex_enumerate:
  "list_ex (\<lambda>(i, x). Q i x) (enumerate n xs) \<longleftrightarrow> (\<exists>j < length xs. Q (n + j) (xs ! j))"
proof
  assume "list_ex (\<lambda>(i, x). Q i x) (enumerate n xs)"
  then obtain p where p: "p \<in> set (enumerate n xs)" "case p of (i, x) \<Rightarrow> Q i x"
    by (auto simp: list_ex_iff)
  from p(1) obtain j where "j < length xs" "p = (n + j, xs ! j)"
    by (auto simp: in_set_conv_nth nth_enumerate_eq)
  with p(2) show "\<exists>j < length xs. Q (n + j) (xs ! j)" by auto
next
  assume "\<exists>j < length xs. Q (n + j) (xs ! j)"
  then obtain j where j: "j < length xs" "Q (n + j) (xs ! j)" by blast
  then have "(n + j, xs ! j) \<in> set (enumerate n xs)"
    by (simp add: in_set_enumerate_eq)
  with j(2) show "list_ex (\<lambda>(i, x). Q i x) (enumerate n xs)"
    by (auto simp: list_ex_iff)
qed

lemma word_passes_qualifies:
  assumes "length word = 5" "length (correct_positions g) = 5"
  shows "word_passes g word = Inr (qualifies g word)"
proof -
  have m: "any_mismatch (correct_positions g) word range5
        = Inr (\<exists>i \<in> set range5. correct_positions g ! i \<noteq> [] \<and> [word ! i] \<noteq> correct_positions g ! i)"
    by (rule any_mismatch_iff) (simp add: range5_def assms)
  have r: "set range5 = {i. i < 5}" by (auto simp: range5_def)
  show ?thesis
    unfolding word_passes_def m qualifies_def list_ex_enumerate r
    apply (auto simp: assms split: option.splits bool.splits)
    apply blast
    done
qed

lemma filter_words_filter:
  "\<forall>w \<in> set ws. length w = 5 \<Longrightarrow> length (correct_positions g) = 5 \<Longrightarrow>
   filter_words g ws = Inr (filter (qualifies g) ws)"
  by (induction ws) (simp_all add: word_passes_qualifies)

lemma filtered_word_list_filter:
  "\<forall>w \<in> set (word_list g). length w = 5 \<Longrightarrow> length (correct_positions g) = 5 \<Longrightarrow>
   filtered_word_list g = Inr (filter (qualifies g) (word_list g))"
  by (simp add: filtered_word_list_def filter_words_filter)

lemma filtered_after_update:
  assumes "\<forall>w \<in> set (word_list g). length w = 5"
    and "length (correct_positions g) = 5"
    and "process_feedback last_guess ps g = (None, g')"
  shows "filtered_word_list g' = Inr (filter (qualifies g') (word_list g))"
  using assms process_feedback_frame [OF assms(3)]
  by (simp add: filtered_word_list_filter)

subsection \<open>The candidate filter\<close>

text \<open>
  Claim C1. For a dictionary of 5-letter words and an engine state with its five
  position slots, the candidate list computed after a feedback update is the
  dictionary restricted, in dictionary order, to the words that (a) contain no invalid
  letter, (b) agree with every confirmed position, (c) have no misplaced letter at a
  position recorded for it and (d) contain every misplaced letter.
\<close>

theorem candidates_are_qualifying_words:
  assumes "\<forall>w \<in> set (word_list g). length w = 5"
    and "length (correct_positions g) = 5"
    and "process_feedback last_guess (enumerate 0 result) g = (None, g')"
  shows "filtered_word_list g' = Inr (filter (qualifies g') (word_list g))"
  by (rule filtered_after_update [OF assms])

theorem candidates_are_qualifying_words_witness:
  "map length (word_list (opened words2 ''anple'')) = [5, 5, 5]
   \<and> length (correct_positions (opened words2 ''anple'')) = 5
   \<and> process_feedback ''anple'' (enumerate 0 ''a+ple'') (opened words2 ''anple'')
       = (None, (opened words2 ''anple'')
                  \<lparr>invalid_letters := {CHR ''n''},
                    correct_positions := [''a'', [], ''p'', ''l'', ''e'']\<rparr>)
   \<and> filtered_word_list ((opened words2 ''anple'')
                  \<lparr>invalid_letters := {CHR ''n''},
                    correct_positions := [''a'', [], ''p'', ''l'', ''e'']\<rparr>)
       = Inr (filter (qualifies ((opened words2 ''anple'')
                  \<lparr>invalid_letters := {CHR ''n''},
                    correct_positions := [''a'', [], ''p'', ''l'', ''e'']\<rparr>)) words2)
   \<and> filtered_word_list ((opened words2 ''anple'')
                  \<lparr>invalid_letters := {CHR ''n''},
                    correct_positions := [''a'', [], ''p'', ''l'', ''e'']\<rparr>)
       = Inr [''apple'', ''ample'']"
proof -
  have v: "filtered_word_list ((opened words2 ''anple'')
                  \<lparr>invalid_letters := {CHR ''n''},
                    correct_positions := [''a'', [], ''p'', ''l'', ''e'']\<rparr>)
       = Inr [''apple'', ''ample'']"
    by (simp add: filtered_word_list_def word_passes_def opened_def fresh_def words2_def
          range5_def)
  have u: "process_feedback ''anple'' (enumerate 0 ''a+ple'') (opened words2 ''anple'')
       = (None, (opened words2 ''anple'')
                  \<lparr>invalid_letters := {CHR ''n''},
                    correct_positions := [''a'', [], ''p'', ''l'', ''e'']\<rparr>)"
    by (simp add: opened_def fresh_def isalpha_lower not_isalpha_marks)
  have d: "\<forall>w \<in> set (word_list (opened words2 ''anple'')). length w = 5"
    by (simp add: opened_def fresh_def words2_def)
  have l: "length (correct_positions (opened words2 ''anple'')) = 5"
    by (simp add: opened_def fresh_def)
  have w: "word_list (opened words2 ''anple'') = words2"
    by (simp add: opened_def fresh_def)
  have m: "map length (word_list (opened words2 ''anple'')) = [5, 5, 5]"
    by (simp add: opened_def fresh_def words2_def)
  show ?thesis
    using candidates_are_qualifying_words [OF d l u] m l u v by (simp add: w)
qed

subsection \<open>Calls of \<^verbatim>\<open>get_guess\<close>\<close>

lemma resample_untried_aux:
  assumes a: "resample trd flt guess rs = Some r"
  shows "\<forall>guess' rs'. r = Inr (guess', rs') \<longrightarrow> guess' \<notin> set trd"
  by (rule resample.raw_induct
        [where P = "\<lambda>trd flt guess rs r. \<forall>guess' rs'. r = Inr (guess', rs') \<longrightarrow> guess' \<notin> set trd",
         OF _ a])
     (auto split: if_splits option.splits sum.splits prod.splits)

lemma resample_untried:
  "resample trd flt guess rs = Some (Inr (guess', rs')) \<Longrightarrow> guess' \<notin> set trd"
  using resample_untried_aux by blast

lemma later_guess_Inr:
  assumes "later_guess ord g result rs = Inr (guess, filtered, g', rs')"
  shows "length (last (tried g)) = 5
       \<and> process_feedback (last (tried g)) (enumerate 0 result) g = (None, g')
       \<and> filtered_word_list g' = Inr filtered
       \<and> choose_guess ord g' filtered rs = Inr (guess, rs')"
proof -
  from assms have l: "length (last (tried g)) = 5"
    by (auto simp: later_guess_def Let_def split: if_splits)
  obtain e g1 where p: "process_feedback (last (tried g)) (enumerate 0 result) g = (e, g1)"
    by (cases "process_feedback (last (tried g)) (enumerate 0 result) g")
  with assms l have e: "e = None"
    by (cases e) (simp_all add: later_guess_def)
  from assms l p e obtain f where f: "filtered_word_list g1 = Inr f"
    by (cases "filtered_word_list g1") (simp_all add: later_guess_def)
  from assms l p e f obtain q where q: "choose_guess ord g1 f rs = Inr q"
    by (cases "choose_guess ord g1 f rs") (simp_all add: later_guess_def)
  from assms l p e f q show ?thesis
    by (cases q) (simp add: later_guess_def)
qed

lemma later_guess_Inl:
  assumes "later_guess ord g result rs = Inl (e, g')"
  shows "\<exists>x. process_feedback (last (tried g)) (enumerate 0 result) g = (x, g') \<or> g' = g"
proof -
  obtain x g1 where p: "process_feedback (last (tried g)) (enumerate 0 result) g = (x, g1)"
    by (cases "process_feedback (last (tried g)) (enumerate 0 result) g")
  show ?thesis
  proof (cases "length (last (tried g)) = 5")
    case False
    with assms show ?thesis by (simp add: later_guess_def)
  next
    case True
    have "g' = g1"
    proof (cases x)
      case (Some a)
      with assms True p show ?thesis by (simp add: later_guess_def)
    next
      case None
      show ?thesis
      proof (cases "filtered_word_list g1")
        case (Inl a)
        with assms True p None show ?thesis by (simp add: later_guess_def)
      next
        case (Inr f)
        with assms True p None show ?thesis
          by (cases "choose_guess ord g1 f rs") (auto simp add: later_guess_def)
      qed
    qed
    with p show ?thesis by blast
  qed
qed

lemma get_guess_Inr:
  assumes "manual g \<noteq> ''manual''"
    and "get_guess ord inp g result rs = Some (Inr (guess, g', rs'))"
  shows "\<exists>g1 flt guess1 rs1.
           (tried g = [] \<and> g1 = g \<and> flt = None \<and> guess1 = first_guess g \<and> rs1 = rs
            \<or> tried g \<noteq> [] \<and> (\<exists>f. flt = Some f \<and> later_guess ord g result rs = Inr (guess1, f, g1, rs1)))
         \<and> resample (tried g1) flt guess1 rs1 = Some (Inr (guess, rs'))
         \<and> g' = g1\<lparr>tried := tried g1 @ [guess], guess_count := guess_count g1 + 1\<rparr>"
proof (cases "tried g = []")
  case True
  with assms show ?thesis
    by (auto simp: get_guess_def split: option.splits sum.splits)
next
  case False
  from assms False obtain q where q: "later_guess ord g result rs = Inr q"
    by (cases "later_guess ord g result rs") (auto simp: get_guess_def)
  obtain guess1 f g1 rs1 where q': "q = (guess1, f, g1, rs1)" by (cases q)
  from assms False q q' show ?thesis
    by (auto simp: get_guess_def split: option.splits sum.splits)
qed

lemma same_frame_refl: "same_frame g g"
  by (simp add: same_frame_def)

lemma process_feedback_same_frame:
  "process_feedback lg ps g = (e, g') \<Longrightarrow> same_frame g g'"
  unfolding same_frame_def by (rule process_feedback_frame)

lemma later_guess_Inr_frame:
  "later_guess ord g result rs = Inr (guess, filtered, g', rs') \<Longrightarrow> same_frame g g'"
  using later_guess_Inr process_feedback_same_frame by blast

lemma later_guess_Inl_frame:
  "later_guess ord g result rs = Inl (e, g') \<Longrightarrow> same_frame g g'"
  using later_guess_Inl process_feedback_same_frame same_frame_refl by blast

lemma get_guess_returns:
  assumes "manual g \<noteq> ''manual''"
    and "get_guess ord inp g result rs = Some (Inr (guess, g', rs'))"
  shows "tried g' = tried g @ [guess] \<and> guess_count g' = guess_count g + 1
       \<and> guess \<notin> set (tried g)
       \<and> word_list g' = word_list g \<and> manual g' = manual g
       \<and> first_guess g' = first_guess g
       \<and> first_guess_letters g' = first_guess_letters g
       \<and> length (correct_positions g') = length (correct_positions g)"
proof -
  from get_guess_Inr [OF assms] obtain g1 flt guess1 rs1 where
    h: "tried g = [] \<and> g1 = g
        \<or> (\<exists>f. later_guess ord g result rs = Inr (guess1, f, g1, rs1))"
    and r: "resample (tried g1) flt guess1 rs1 = Some (Inr (guess, rs'))"
    and g': "g' = g1\<lparr>tried := tried g1 @ [guess], guess_count := guess_count g1 + 1\<rparr>"
    by blast
  from h have f: "same_frame g g1"
    using later_guess_Inr_frame same_frame_refl by blast
  from resample_untried [OF r] have "guess \<notin> set (tried g1)" .
  with f g' show ?thesis by (simp add: same_frame_def)
qed

lemma get_guess_manual:
  "manual g = ''manual'' \<Longrightarrow> get_guess ord inp g result rs = Some (Inr (inp, g, rs))"
  by (simp add: get_guess_def)

lemma get_guess_Inl:
  assumes "get_guess ord inp g result rs = Some (Inl (e, g'))"
  shows "later_guess ord g result rs = Inl (e, g') \<and> tried g \<noteq> []
       \<or> (\<exists>guess f rs1.
             (tried g = [] \<and> g' = g
              \<or> tried g \<noteq> [] \<and> later_guess ord g result rs = Inr (guess, f, g', rs1)))"
proof -
  from assms have m: "manual g \<noteq> ''manual''"
    by (auto simp: get_guess_def)
  show ?thesis
  proof (cases "tried g = []")
    case True
    with assms m show ?thesis
      by (auto simp: get_guess_def split: option.splits sum.splits)
  next
    case False
    show ?thesis
    proof (cases "later_guess ord g result rs")
      case (Inl a)
      with assms m False show ?thesis by (simp add: get_guess_def)
    next
      case (Inr q)
      obtain guess1 f g1 rs1 where q': "q = (guess1, f, g1, rs1)" by (cases q)
      from assms m False Inr q' show ?thesis
        by (auto simp: get_guess_def split: option.splits sum.splits)
    qed
  qed
qed

lemma get_guess_raises:
  assumes "get_guess ord inp g result rs = Some (Inl (e, g'))"
  shows "same_frame g g'"
  using get_guess_Inl [OF assms] later_guess_Inl_frame later_guess_Inr_frame same_frame_refl
  by blast

lemma init1: "guesser_init ''auto'' words1 = Inr (fresh words1 ''abcde'')"
  by (simp add: eval_analysis words1_def fresh_def)

lemma init2: "guesser_init ''auto'' words2 = Inr (fresh words2 ''anple'')"
  by (simp add: eval_analysis words2_def fresh_def)

lemma init3: "guesser_init ''auto'' words3 = Inr (fresh words3 ''abcde'')"
  by (simp add: eval_analysis words3_def fresh_def)

lemma first_call:
  "get_guess ord inp (fresh wl fg) result rs = Some (Inr (fg, opened wl fg, rs))"
  by (simp add: get_guess_def fresh_def opened_def resample.simps)

subsection \<open>The anti-repeat loop\<close>

lemmas eval_get_guess =
  get_guess_def later_guess_def filtered_word_list_def word_passes_def choose_guess_def
  second_guess_def opened_def fresh_def isalpha_lower not_isalpha_marks range5_def
  resample.simps choice_def Let_def

lemma resample_stuck_aux:
  assumes a: "resample trd flt guess rs = Some r"
  shows "\<not> (guess \<in> set trd \<and>
            (\<exists>f. flt = Some f \<and> f \<noteq> [] \<and> (\<forall>n. f ! (rs !! n mod length f) \<in> set trd)))"
proof (rule resample.raw_induct
        [where P = "\<lambda>trd flt guess rs r. \<not> (guess \<in> set trd \<and>
            (\<exists>f. flt = Some f \<and> f \<noteq> [] \<and> (\<forall>n. f ! (rs !! n mod length f) \<in> set trd)))",
         OF _ a])
  fix rsm :: "string list \<Rightarrow> string list option \<Rightarrow> string \<Rightarrow> nat stream
              \<Rightarrow> (error + string \<times> nat stream) option"
  fix trd flt guess rs r
  assume IH: "\<And>trd flt guess rs r. rsm trd flt guess rs = Some r \<Longrightarrow>
       \<not> (guess \<in> set trd \<and>
            (\<exists>f. flt = Some f \<and> f \<noteq> [] \<and> (\<forall>n. f ! (rs !! n mod length f) \<in> set trd)))"
  assume step: "(if guess \<in> set trd
        then case flt of None \<Rightarrow> Some (Inl UnboundLocalError)
             | Some filtered \<Rightarrow>
                 (case choice filtered rs of Inl e \<Rightarrow> Some (Inl e)
                  | Inr (guess', rs') \<Rightarrow> rsm trd flt guess' rs')
        else Some (Inr (guess, rs))) = Some r"
  show "\<not> (guess \<in> set trd \<and>
            (\<exists>f. flt = Some f \<and> f \<noteq> [] \<and> (\<forall>n. f ! (rs !! n mod length f) \<in> set trd)))"
  proof
    assume "guess \<in> set trd \<and>
            (\<exists>f. flt = Some f \<and> f \<noteq> [] \<and> (\<forall>n. f ! (rs !! n mod length f) \<in> set trd))"
    then obtain f where g: "guess \<in> set trd" and f: "flt = Some f" "f \<noteq> []"
      and all: "\<forall>n. f ! (rs !! n mod length f) \<in> set trd" by blast
    from step g f have r: "rsm trd flt (f ! (shd rs mod length f)) (stl rs) = Some r"
      by (simp add: choice_def)
    from all have "f ! (rs !! 0 mod length f) \<in> set trd" by blast
    then have g': "f ! (shd rs mod length f) \<in> set trd" by simp
    from all have "\<forall>n. f ! (rs !! Suc n mod length f) \<in> set trd" by blast
    then have all': "\<forall>n. f ! (stl rs !! n mod length f) \<in> set trd" by simp
    from IH [OF r] g' f all' show False by blast
  qed
qed

lemma resample_stuck:
  "guess \<in> set trd \<Longrightarrow> f \<noteq> [] \<Longrightarrow> \<forall>n. f ! (rs !! n mod length f) \<in> set trd \<Longrightarrow>
   resample trd (Some f) guess rs = None"
  using resample_stuck_aux [of trd "Some f" guess rs] by (cases "resample trd (Some f) guess rs") auto

lemma resample_exits:
  "f \<noteq> [] \<Longrightarrow> f ! (rs !! n mod length f) \<notin> set trd \<Longrightarrow>
   \<exists>guess' rs'. resample trd (Some f) guess rs = Some (Inr (guess', rs'))"
proof (induction n arbitrary: guess rs)
  case 0
  then show ?case by (simp add: resample.simps choice_def)
next
  case (Suc n)
  from Suc.prems have "f ! (stl rs !! n mod length f) \<notin> set trd" by simp
  from Suc.IH [OF Suc.prems(1) this, of "f ! (shd rs mod length f)"]
  show ?case using Suc.prems(1)
    by (subst resample.simps) (simp add: choice_def)
qed

lemma resample_None_iff:
  "resample trd (Some f) guess rs = None \<longleftrightarrow>
     guess \<in> set trd \<and> f \<noteq> [] \<and> (\<forall>n. f ! (rs !! n mod length f) \<in> set trd)"
proof
  assume n: "resample trd (Some f) guess rs = None"
  have 1: "guess \<in> set trd" using n by (subst (asm) resample.simps) (simp split: if_splits)
  have 2: "f \<noteq> []" using n 1 by (subst (asm) resample.simps) (auto simp: choice_def)
  have 3: "\<forall>n. f ! (rs !! n mod length f) \<in> set trd"
  proof (rule ccontr)
    assume "\<not> ?thesis"
    then obtain k where "f ! (rs !! k mod length f) \<notin> set trd" by blast
    from resample_exits [OF 2 this, of guess] n show False by auto
  qed
  from 1 2 3 show "guess \<in> set trd \<and> f \<noteq> [] \<and> (\<forall>n. f ! (rs !! n mod length f) \<in> set trd)"
    by blast
next
  assume "guess \<in> set trd \<and> f \<noteq> [] \<and> (\<forall>n. f ! (rs !! n mod length f) \<in> set trd)"
  then show "resample trd (Some f) guess rs = None" by (simp add: resample_stuck)
qed

lemma get_guess_None_iff:
  assumes "manual g \<noteq> ''manual''" "tried g \<noteq> []"
    and "later_guess ord g result rs = Inr (guess1, f, g1, rs1)"
  shows "get_guess ord inp g result rs = None \<longleftrightarrow>
     guess1 \<in> set (tried g) \<and> f \<noteq> [] \<and> (\<forall>n. f ! (rs1 !! n mod length f) \<in> set (tried g))"
proof -
  have t: "tried g1 = tried g"
    using later_guess_Inr_frame [OF assms(3)] by (simp add: same_frame_def)
  have "get_guess ord inp g result rs = None \<longleftrightarrow> resample (tried g1) (Some f) guess1 rs1 = None"
    using assms by (auto simp: get_guess_def split: option.splits sum.splits)
  then show ?thesis by (simp add: resample_None_iff t)
qed

lemma reachable_distinct: "reachable m wl g \<Longrightarrow> distinct (tried g)"
proof (induction rule: reachable.induct)
  case (constructed g)
  then show ?case by (auto simp: guesser_init_def split: sum.splits)
next
  case (guessed g ord inp result rs guess g' rs')
  show ?case
  proof (cases "manual g = ''manual''")
    case True
    with guessed show ?thesis by (simp add: get_guess_manual)
  next
    case False
    from get_guess_returns [OF False guessed(2)] guessed(3) show ?thesis by simp
  qed
next
  case (raised g ord inp result rs e g')
  from get_guess_raises [OF raised(2)] raised(3) show ?case by (simp add: same_frame_def)
next
  case (restarted g)
  show ?case by (simp add: restart_game_def)
qed

lemma later_guess_words1:
  "later_guess ord (opened words1 ''abcde'') ''+++++'' rs
   = Inr (''fgghi'', [''fgghi''],
          (opened words1 ''abcde'')
            \<lparr>invalid_letters := {CHR ''e'', CHR ''d'', CHR ''c'', CHR ''b'', CHR ''a''}\<rparr>,
          rs)"
  by (simp add: eval_get_guess words1_def)

lemma later_guess_words3:
  "later_guess remdups (opened words3 ''abcde'') ''abcde'' rs
   = Inr (''abcde'', [''abcde''],
          (opened words3 ''abcde'')\<lparr>correct_positions := [''a'', ''b'', ''c'', ''d'', ''e'']\<rparr>,
          stl rs)"
  by (simp add: eval_get_guess words3_def sorted_letters_of_def letter_entropy_def
        sorted_desc_def dict_get_def)

lemma opened_reachable:
  "guesser_init ''auto'' wl = Inr (fresh wl fg) \<Longrightarrow> reachable ''auto'' wl (opened wl fg)"
  by (rule reachable.guessed [OF reachable.constructed first_call])

text \<open>
  Claim C8, as the code has it. In every reachable state \<^verbatim>\<open>_tried\<close> has no duplicates:
  a call that returns appends a guess that was not in it. The loop itself has no
  bound. A non-first call whose selection step yields the guess \<open>guess1\<close> and the
  candidates \<open>f\<close> does not return (and does not raise) exactly when \<open>guess1\<close> was tried,
  \<open>f\<close> is not empty and every draw of the random source picks a tried candidate, which
  is every run when all candidates are tried.
\<close>

theorem tried_distinct_and_loop_exit:
  assumes "reachable m wl g"
  shows "distinct (tried g)
       \<and> (manual g \<noteq> ''manual'' \<and> tried g \<noteq> []
            \<and> later_guess ord g result rs = Inr (guess1, f, g1, rs1) \<longrightarrow>
          (get_guess ord inp g result rs = None \<longleftrightarrow>
             guess1 \<in> set (tried g) \<and> f \<noteq> []
             \<and> (\<forall>n. f ! (rs1 !! n mod length f) \<in> set (tried g))))"
  using reachable_distinct [OF assms] get_guess_None_iff by blast

theorem tried_distinct_and_loop_exit_witness:
  "reachable ''auto'' words1 (opened words1 ''abcde'')
   \<and> distinct (tried (opened words1 ''abcde''))
   \<and> get_guess remdups [] (opened words1 ''abcde'') ''+++++'' (sconst 0) \<noteq> None"
proof -
  have r: "reachable ''auto'' words1 (opened words1 ''abcde'')"
    by (rule opened_reachable [OF init1])
  have m: "manual (opened words1 ''abcde'') \<noteq> ''manual''"
    and t: "tried (opened words1 ''abcde'') = [''abcde'']"
    by (simp_all add: opened_def fresh_def)
  from tried_distinct_and_loop_exit
         [OF r, where ord = remdups and result = "''+++++''" and rs = "sconst 0"
            and ?guess1.0 = "''fgghi''" and f = "[''fgghi'']" and ?rs1.0 = "sconst 0"
            and inp = "[]"]
       later_guess_words1 [of remdups "sconst 0"] m r
  show ?thesis by (simp add: t)
qed

theorem loop_never_exits_counterexample:
  "guesser_init ''auto'' words3 = Inr (fresh words3 ''abcde'')
   \<and> get_guess remdups [] (fresh words3 ''abcde'') [] (sconst 0)
       = Some (Inr (''abcde'', opened words3 ''abcde'', sconst 0))
   \<and> get_guess remdups [] (opened words3 ''abcde'') ''abcde'' (sconst 0) = None"
proof -
  have m: "manual (opened words3 ''abcde'') \<noteq> ''manual''"
    and t: "tried (opened words3 ''abcde'') = [''abcde'']"
    by (simp_all add: opened_def fresh_def)
  have "get_guess remdups [] (opened words3 ''abcde'') ''abcde'' (sconst 0) = None"
    using get_guess_None_iff [OF m _ later_guess_words3, where rs = "sconst 0" and inp = "[]"]
    by (simp add: t)
  then show ?thesis by (simp add: init3 first_call)
qed

subsection \<open>Example runs\<close>

lemma second_call_words1:
  "get_guess ord inp (opened words1 ''abcde'') ''+++++'' rs = Some (Inr (''fgghi'', after_two, rs))"
  by (simp add: eval_get_guess words1_def after_two_def)

lemma third_call_words1:
  "get_guess ord inp after_two ''++-++'' rs = Some (Inl (IndexError_choice_empty, after_three))"
  by (auto simp add: eval_get_guess words1_def after_two_def after_three_def eval_nat_numeral)

lemma second_call_words2:
  "get_guess ord inp (opened words2 ''anple'') ''-----'' rs
   = Some (Inl (UnboundLocalError, all_misplaced))"
  by (simp add: eval_get_guess words2_def all_misplaced_def eval_nat_numeral)

subsection \<open>Invalid letters against confirmed and misplaced letters\<close>

text \<open>
  Claim C2 at a failing run. The word list is \<open>words1\<close>; the first guess is
  \<^verbatim>\<open>abcde\<close>, the feedback \<^verbatim>\<open>+++++\<close> makes the second guess \<^verbatim>\<open>fgghi\<close>, and the feedback
  \<^verbatim>\<open>++-++\<close> marks its first \<^verbatim>\<open>g\<close> absent and its second \<^verbatim>\<open>g\<close> present elsewhere. The
  update leaves \<^verbatim>\<open>g\<close> both in \<^verbatim>\<open>_invalid_letters\<close> and a key of
  \<^verbatim>\<open>_misplaced_letters\<close>: only the exact-match branch removes a letter from the invalid
  set. No word can then pass the filter, and the call raises.
\<close>

theorem present_after_absent_stays_invalid:
  "guesser_init ''auto'' words1 = Inr (fresh words1 ''abcde'')
   \<and> get_guess ord inp (fresh words1 ''abcde'') r0 rs
       = Some (Inr (''abcde'', opened words1 ''abcde'', rs))
   \<and> get_guess ord inp (opened words1 ''abcde'') ''+++++'' rs
       = Some (Inr (''fgghi'', after_two, rs))
   \<and> process_feedback ''fgghi'' (enumerate 0 ''++-++'') after_two = (None, after_three)
   \<and> get_guess ord inp after_two ''++-++'' rs
       = Some (Inl (IndexError_choice_empty, after_three))
   \<and> CHR ''g'' \<in> invalid_letters after_three
   \<and> misplaced_letters after_three (CHR ''g'') = Some {2}"
proof -
  have "process_feedback ''fgghi'' (enumerate 0 ''++-++'') after_two = (None, after_three)"
    by (simp add: after_two_def after_three_def opened_def fresh_def not_isalpha_marks
          eval_nat_numeral)
  then show ?thesis
    by (simp add: init1 first_call second_call_words1 third_call_words1)
       (simp add: after_three_def)
qed

subsection \<open>The second guess with an empty sub-list\<close>

text \<open>
  Claim C9 at a failing run. The word list is \<open>words2\<close>, the first guess \<^verbatim>\<open>anple\<close>; the
  feedback \<^verbatim>\<open>-----\<close> records five misplaced letters and no word passes the filter. The
  sub-list of the branch for more than two misplaced letters is empty, and the
  fallback reads \<^verbatim>\<open>sorted_letters\<close>, which only the other branch assigns: the call
  raises \<^verbatim>\<open>UnboundLocalError\<close> and builds no probe.
\<close>

theorem many_misplaced_fallback_unbound:
  "guesser_init ''auto'' words2 = Inr (fresh words2 ''anple'')
   \<and> get_guess ord inp (fresh words2 ''anple'') r0 rs
       = Some (Inr (''anple'', opened words2 ''anple'', rs))
   \<and> process_feedback ''anple'' (enumerate 0 ''-----'') (opened words2 ''anple'')
       = (None, all_misplaced)
   \<and> card (dom (misplaced_letters all_misplaced)) = 5
   \<and> filtered_word_list all_misplaced = Inr []
   \<and> get_guess ord inp (opened words2 ''anple'') ''-----'' rs
       = Some (Inl (UnboundLocalError, all_misplaced))"
proof -
  have 1: "process_feedback ''anple'' (enumerate 0 ''-----'') (opened words2 ''anple'')
       = (None, all_misplaced)"
    by (simp add: all_misplaced_def opened_def fresh_def not_isalpha_marks eval_nat_numeral)
  have 2: "card (dom (misplaced_letters all_misplaced)) = 5"
    by (simp add: all_misplaced_def)
  have 3: "filtered_word_list all_misplaced = Inr []"
    by (simp add: all_misplaced_def filtered_word_list_def word_passes_def opened_def
          fresh_def words2_def range5_def)
  from 1 2 3 show ?thesis
    by (simp add: init2 first_call second_call_words2)
qed

subsection \<open>An empty candidate list\<close>

lemma valid_order_empty: "valid_order ord \<Longrightarrow> ord [] = []"
  by (auto simp: valid_order_def dest: spec [of _ "[]"])

lemma choose_guess_empty:
  assumes "valid_order ord"
    and "guess_count g \<noteq> 1 \<or> card (dom (misplaced_letters g)) \<le> 2"
  shows "choose_guess ord g [] rs = Inl IndexError_choice_empty"
proof (cases "guess_count g = 1")
  case True
  with assms(2) have c: "\<not> 2 < card (dom (misplaced_letters g))" by simp
  have s: "sorted_letters_of ord [] = []"
    by (simp add: sorted_letters_of_def letter_entropy_def sorted_desc_def
          valid_order_empty [OF assms(1)])
  from True c s show ?thesis
    by (simp add: choose_guess_def second_guess_def choice_def)
next
  case False
  then show ?thesis by (simp add: choose_guess_def choice_def)
qed

lemma get_guess_later_error:
  assumes "manual g \<noteq> ''manual''" "tried g \<noteq> []"
    and "later_guess ord g result rs = Inl (e, g')"
  shows "get_guess ord inp g result rs = Some (Inl (e, g'))"
  using assms by (simp add: get_guess_def)

text \<open>
  Claim C3, as the code has it. The code defines no condition for an empty candidate
  list. A non-first call in auto mode whose filtered list is empty (at any turn other
  than the second, or at the second turn with at most two misplaced letters) reaches
  \<^verbatim>\<open>choice(filtered_word_list)\<close> on the empty list and fails with the
  \<^verbatim>\<open>IndexError\<close> that \<^verbatim>\<open>random.choice\<close> raises; the state keeps the feedback update.
\<close>

theorem empty_candidates_raise_choice_error:
  assumes "manual g \<noteq> ''manual''" and "tried g \<noteq> []"
    and "length (last (tried g)) = 5"
    and "process_feedback (last (tried g)) (enumerate 0 result) g = (None, g')"
    and "filtered_word_list g' = Inr []"
    and "valid_order ord"
    and "guess_count g \<noteq> 1 \<or> card (dom (misplaced_letters g')) \<le> 2"
  shows "get_guess ord inp g result rs = Some (Inl (IndexError_choice_empty, g'))"
proof -
  have "guess_count g' = guess_count g"
    using process_feedback_frame [OF assms(4)] by simp
  with assms(7) have "guess_count g' \<noteq> 1 \<or> card (dom (misplaced_letters g')) \<le> 2" by simp
  from choose_guess_empty [OF assms(6) this]
  have "later_guess ord g result rs = Inl (IndexError_choice_empty, g')"
    using assms(3,4,5) by (simp add: later_guess_def)
  from get_guess_later_error [OF assms(1,2) this] show ?thesis .
qed

theorem empty_candidates_raise_choice_error_witness:
  "manual after_two \<noteq> ''manual'' \<and> tried after_two \<noteq> []
   \<and> length (last (tried after_two)) = 5
   \<and> process_feedback (last (tried after_two)) (enumerate 0 ''++-++'') after_two
       = (None, after_three)
   \<and> filtered_word_list after_three = Inr []
   \<and> valid_order remdups \<and> guess_count after_two = 2
   \<and> get_guess remdups [] after_two ''++-++'' (sconst 0)
       = Some (Inl (IndexError_choice_empty, after_three))"
proof -
  have m: "manual after_two \<noteq> ''manual''" and t: "tried after_two \<noteq> []"
    and l: "length (last (tried after_two)) = 5" and c: "guess_count after_two = 2"
    by (simp_all add: after_two_def opened_def fresh_def)
  have p: "process_feedback (last (tried after_two)) (enumerate 0 ''++-++'') after_two
       = (None, after_three)"
    by (simp add: after_two_def after_three_def opened_def fresh_def not_isalpha_marks
          eval_nat_numeral)
  have f: "filtered_word_list after_three = Inr []"
    by (auto simp add: after_three_def after_two_def filtered_word_list_def word_passes_def
          opened_def fresh_def words1_def range5_def)
  have v: "valid_order remdups" by (simp add: valid_order_def)
  from c have d: "guess_count after_two \<noteq> 1 \<or> card (dom (misplaced_letters after_three)) \<le> 2"
    by simp
  from empty_candidates_raise_choice_error [OF m t l p f v d, where inp = "[]" and rs = "sconst 0"] m t l p f v c
  show ?thesis by simp
qed

theorem empty_candidates_counterexample:
  "filtered_word_list
     ((opened words1 ''abcde'')
        \<lparr>correct_positions := [''a'', ''b'', ''c'', ''d'', []], invalid_letters := {CHR ''e''}\<rparr>)
     = Inr []
   \<and> get_guess remdups [] (opened words1 ''abcde'') ''abcd+'' (sconst 0)
       = Some (Inl (IndexError_choice_empty,
                    (opened words1 ''abcde'')
                      \<lparr>correct_positions := [''a'', ''b'', ''c'', ''d'', []],
                        invalid_letters := {CHR ''e''}\<rparr>))"
  by (simp add: eval_get_guess words1_def sorted_letters_of_def letter_entropy_def
        sorted_desc_def dict_get_def)

subsection \<open>Feedback of the wrong length\<close>

lemma process_feedback_overlong:
  assumes "length (correct_positions g) = length lg"
    and "\<exists>j < length xs. length lg \<le> n + j \<and> is_mark (xs ! j)"
  shows "fst (process_feedback lg (enumerate n xs) g) = Some IndexError_string_index"
  using assms
proof (induction xs arbitrary: n g)
  case Nil
  then show ?case by simp
next
  case (Cons x xs)
  from Cons.prems(2) obtain j where j: "j < length (x # xs)" "length lg \<le> n + j" "is_mark ((x # xs) ! j)"
    by blast
  show ?case
  proof (cases "is_mark x \<and> length lg \<le> n")
    case True
    then show ?thesis by (auto simp: is_mark_def)
  next
    case False
    with j have "j \<noteq> 0" by (cases j) auto
    then obtain k where k: "j = Suc k" by (cases j) auto
    with j have ex: "\<exists>j < length xs. length lg \<le> Suc n + j \<and> is_mark (xs ! j)"
      by auto
    have IH: "\<And>g'. length (correct_positions g') = length lg \<Longrightarrow>
        fst (process_feedback lg (enumerate (Suc n) xs) g') = Some IndexError_string_index"
      using Cons.IH ex by blast
    from False have c: "\<not> is_mark x \<or> n < length lg" by auto
    show ?thesis
      using c Cons.prems(1) by (auto simp: is_mark_def IH)
  qed
qed

lemma first_guess_one_letter:
  "guesser_init ''auto'' [''aaaaa''] = Inr (fresh [''aaaaa''] ''a'')"
  by (simp add: eval_analysis fresh_def)

text \<open>Exceptions other than the length check: none of them is the \<^verbatim>\<open>ValueError\<close> of line 115.\<close>

lemma process_feedback_in_range:
  "length (correct_positions g) = length lg \<Longrightarrow> n + length xs \<le> length lg \<Longrightarrow>
   fst (process_feedback lg (enumerate n xs) g) = None"
proof (induction xs arbitrary: n g)
  case Nil
  then show ?case by simp
next
  case (Cons x xs)
  from Cons.prems have n: "n < length lg" "n < length (correct_positions g)"
    and r: "Suc n + length xs \<le> length lg" by simp_all
  have IH: "\<And>g'. length (correct_positions g') = length lg \<Longrightarrow>
              fst (process_feedback lg (enumerate (Suc n) xs) g') = None"
    using Cons.IH r by blast
  show ?case using n Cons.prems(1) by (simp add: IH)
qed

lemma any_mismatch_error: "any_mismatch cp w is = Inl e \<Longrightarrow> e \<noteq> ValueError"
  by (induction "is") (auto split: if_splits)

lemma word_passes_error: "word_passes g w = Inl e \<Longrightarrow> e \<noteq> ValueError"
  by (auto simp: word_passes_def split: if_splits sum.splits bool.splits dest: any_mismatch_error)

lemma filter_words_error: "filter_words g ws = Inl e \<Longrightarrow> e \<noteq> ValueError"
  by (induction ws) (auto split: sum.splits dest: word_passes_error)

lemma choice_error: "choice xs rs = Inl e \<Longrightarrow> e = IndexError_choice_empty"
  by (simp add: choice_def split: if_splits)

lemma pad_guessie_error: "pad_guessie guessie rs = Inl e \<Longrightarrow> e \<noteq> ValueError"
proof (induction guessie rs rule: pad_guessie.induct)
  case (1 guessie rs)
  show ?case
  proof (cases "length guessie < 5")
    case False
    with "1.prems" show ?thesis by simp
  next
    case True
    show ?thesis
    proof (cases "choice alphabet rs")
      case (Inl a)
      with True "1.prems" choice_error [OF Inl] show ?thesis by simp
    next
      case (Inr p)
      obtain c rs' where p: "p = (c, rs')" by (cases p)
      from True Inr p "1.prems" have "pad_guessie (guessie @ [c]) rs' = Inl e" by simp
      from "1.IH" [OF True Inr p [symmetric] this] show ?thesis .
    qed
  qed
qed

lemma second_guess_error: "second_guess ord g filtered rs = Inl e \<Longrightarrow> e \<noteq> ValueError"
  by (auto simp: second_guess_def Let_def split: if_splits list.splits option.splits
           dest: choice_error)

lemma single_missing_error: "single_missing ord g filtered rs = Inl e \<Longrightarrow> e \<noteq> ValueError"
  by (auto simp: single_missing_def Let_def simp del: pad_guessie.simps
           split: if_splits sum.splits prod.splits dest: pad_guessie_error)

lemma best_scoring_error: "best_scoring filtered = Inl e \<Longrightarrow> e \<noteq> ValueError"
  by (auto simp: best_scoring_def split: list.splits)

lemma choose_guess_error: "choose_guess ord g filtered rs = Inl e \<Longrightarrow> e \<noteq> ValueError"
  by (auto simp: choose_guess_def split: if_splits sum.splits
           dest: second_guess_error single_missing_error best_scoring_error choice_error)

lemma resample_error_aux:
  assumes a: "resample trd flt guess rs = Some r"
  shows "r \<noteq> Inl ValueError"
  by (rule resample.raw_induct [where P = "\<lambda>trd flt guess rs r. r \<noteq> Inl ValueError", OF _ a])
     (auto split: if_splits option.splits sum.splits prod.splits dest: choice_error)

lemma short_feedback_processed:
  assumes au: "manual g \<noteq> ''manual''" and tr: "tried g \<noteq> []"
    and lg: "length (last (tried g)) = 5" and cp: "length (correct_positions g) = 5"
    and sh: "length result < 5"
  shows "\<exists>g'. process_feedback (last (tried g)) (enumerate 0 result) g = (None, g')
           \<and> (\<forall>e g''. get_guess ord inp g result rs = Some (Inl (e, g'')) \<longrightarrow>
                  g'' = g' \<and> e \<noteq> ValueError)"
proof -
  have "fst (process_feedback (last (tried g)) (enumerate 0 result) g) = None"
    using lg cp sh by (intro process_feedback_in_range) simp_all
  then obtain g' where p: "process_feedback (last (tried g)) (enumerate 0 result) g = (None, g')"
    by (cases "process_feedback (last (tried g)) (enumerate 0 result) g") auto
  have "\<forall>e g''. get_guess ord inp g result rs = Some (Inl (e, g'')) \<longrightarrow> g'' = g' \<and> e \<noteq> ValueError"
  proof (intro allI impI)
    fix e g'' assume gg: "get_guess ord inp g result rs = Some (Inl (e, g''))"
    show "g'' = g' \<and> e \<noteq> ValueError"
    proof (cases "later_guess ord g result rs")
      case (Inl a)
      with gg au tr have a: "a = (e, g'')" by (simp add: get_guess_def)
      show ?thesis
      proof (cases "filtered_word_list g'")
        case fl: (Inl b)
        with Inl a lg p have "b = e" "g'' = g'" by (simp_all add: later_guess_def)
        with fl filter_words_error [of g' "word_list g'" e] show ?thesis
          by (simp add: filtered_word_list_def)
      next
        case (Inr f)
        show ?thesis
        proof (cases "choose_guess ord g' f rs")
          case cl: (Inl b)
          with Inl a lg p Inr have "b = e" "g'' = g'" by (simp_all add: later_guess_def)
          with cl choose_guess_error [of ord g' f rs e] show ?thesis by simp
        next
          case cr: (Inr q)
          with Inl lg p Inr show ?thesis by (cases q) (simp add: later_guess_def)
        qed
      qed
    next
      case (Inr q)
      obtain guess1 f g1 rs1 where q: "q = (guess1, f, g1, rs1)" by (cases q)
      from later_guess_Inr [of ord g result rs guess1 f g1 rs1] Inr q p
      have g1: "g1 = g'" by simp
      from gg au tr Inr q have "resample (tried g1) (Some f) guess1 rs1 = Some (Inl e) \<and> g'' = g1"
        by (auto simp: get_guess_def split: option.splits sum.splits)
      with resample_error_aux [of "tried g1" "Some f" guess1 rs1 "Inl e"] g1
      show ?thesis by auto
    qed
  qed
  with p show ?thesis by blast
qed

text \<open>
  Claim C5, as the code has it. The length that \<^verbatim>\<open>get_guess\<close> checks is the length of
  the previous guess, not of the feedback: a non-first call in auto mode fails with
  \<^verbatim>\<open>ValueError\<close>, the state unchanged, when the previous guess is not 5 characters
  long. With a previous guess of 5 characters, a feedback string that has a letter,
  \<^verbatim>\<open>-\<close> or \<^verbatim>\<open>+\<close> at index 5 or beyond fails with \<^verbatim>\<open>IndexError\<close>. Feedback shorter than
  5 symbols is not rejected: the feedback loop processes it position by position
  without an exception, and if the call fails later (in the filter, the selection or
  the anti-repeat loop) it is not with \<^verbatim>\<open>ValueError\<close> and the state keeps the whole
  update.
\<close>

theorem feedback_length_is_not_checked:
  assumes "manual g \<noteq> ''manual''" and "tried g \<noteq> []"
  shows "(length (last (tried g)) \<noteq> 5 \<longrightarrow>
            get_guess ord inp g result rs = Some (Inl (ValueError, g)))
       \<and> (length (last (tried g)) = 5 \<and> length (correct_positions g) = 5
          \<and> (\<exists>i < length result. 5 \<le> i \<and> is_mark (result ! i)) \<longrightarrow>
            (\<exists>g'. get_guess ord inp g result rs = Some (Inl (IndexError_string_index, g'))))
       \<and> (length (last (tried g)) = 5 \<and> length (correct_positions g) = 5
          \<and> length result < 5 \<longrightarrow>
            (\<exists>g'. process_feedback (last (tried g)) (enumerate 0 result) g = (None, g')
               \<and> (\<forall>e g''. get_guess ord inp g result rs = Some (Inl (e, g'')) \<longrightarrow>
                      g'' = g' \<and> e \<noteq> ValueError)))"
proof (intro conjI impI)
  assume "length (last (tried g)) \<noteq> 5"
  then have "later_guess ord g result rs = Inl (ValueError, g)"
    by (simp add: later_guess_def)
  from get_guess_later_error [OF assms this]
  show "get_guess ord inp g result rs = Some (Inl (ValueError, g))" .
next
  assume a: "length (last (tried g)) = 5 \<and> length (correct_positions g) = 5
          \<and> (\<exists>i < length result. 5 \<le> i \<and> is_mark (result ! i))"
  then have "fst (process_feedback (last (tried g)) (enumerate 0 result) g)
             = Some IndexError_string_index"
    by (intro process_feedback_overlong) auto
  then obtain g' where "process_feedback (last (tried g)) (enumerate 0 result) g
             = (Some IndexError_string_index, g')"
    by (cases "process_feedback (last (tried g)) (enumerate 0 result) g") auto
  with a have "later_guess ord g result rs = Inl (IndexError_string_index, g')"
    by (simp add: later_guess_def)
  from get_guess_later_error [OF assms this]
  show "\<exists>g'. get_guess ord inp g result rs = Some (Inl (IndexError_string_index, g'))" by blast
next
  assume "length (last (tried g)) = 5 \<and> length (correct_positions g) = 5
          \<and> length result < 5"
  then show "\<exists>g'. process_feedback (last (tried g)) (enumerate 0 result) g = (None, g')
               \<and> (\<forall>e g''. get_guess ord inp g result rs = Some (Inl (e, g'')) \<longrightarrow>
                      g'' = g' \<and> e \<noteq> ValueError)"
    using short_feedback_processed [OF assms] by blast
qed

theorem feedback_length_is_not_checked_witness:
  "manual (opened [''aaaaa''] ''a'') \<noteq> ''manual'' \<and> tried (opened [''aaaaa''] ''a'') \<noteq> []
   \<and> length (last (tried (opened [''aaaaa''] ''a''))) = 1
   \<and> get_guess remdups [] (opened [''aaaaa''] ''a'') ''a++++'' (sconst 0)
       = Some (Inl (ValueError, opened [''aaaaa''] ''a''))
   \<and> manual (opened words1 ''abcde'') \<noteq> ''manual'' \<and> tried (opened words1 ''abcde'') \<noteq> []
   \<and> length (last (tried (opened words1 ''abcde''))) = 5
   \<and> length (correct_positions (opened words1 ''abcde'')) = 5
   \<and> is_mark (''++++++'' ! 5)
   \<and> (\<exists>g'. get_guess remdups [] (opened words1 ''abcde'') ''++++++'' (sconst 0)
              = Some (Inl (IndexError_string_index, g')))
   \<and> length ''++++'' < 5
   \<and> (\<exists>g'. process_feedback (last (tried (opened words1 ''abcde''))) (enumerate 0 ''++++'')
               (opened words1 ''abcde'') = (None, g')
          \<and> (\<forall>e g''. get_guess remdups [] (opened words1 ''abcde'') ''++++'' (sconst 0)
                          = Some (Inl (e, g'')) \<longrightarrow> g'' = g' \<and> e \<noteq> ValueError))"
proof -
  have a: "manual (opened [''aaaaa''] ''a'') \<noteq> ''manual''" "tried (opened [''aaaaa''] ''a'') \<noteq> []"
    and la: "length (last (tried (opened [''aaaaa''] ''a''))) = 1"
    by (simp_all add: opened_def fresh_def)
  have b: "manual (opened words1 ''abcde'') \<noteq> ''manual''" "tried (opened words1 ''abcde'') \<noteq> []"
    and lb: "length (last (tried (opened words1 ''abcde''))) = 5"
            "length (correct_positions (opened words1 ''abcde'')) = 5"
    by (simp_all add: opened_def fresh_def)
  have k: "is_mark (''++++++'' ! 5)" by (simp add: is_mark_def)
  then have e: "\<exists>i < length ''++++++''. 5 \<le> i \<and> is_mark (''++++++'' ! i)"
    by (intro exI [of _ 5]) simp
  have s: "length ''++++'' < 5" by simp
  from feedback_length_is_not_checked
         [OF a, where ord = remdups and inp = "[]" and result = "''a++++''" and rs = "sconst 0"] la
  have 1: "get_guess remdups [] (opened [''aaaaa''] ''a'') ''a++++'' (sconst 0)
       = Some (Inl (ValueError, opened [''aaaaa''] ''a''))"
    by simp
  from feedback_length_is_not_checked
         [OF b, where ord = remdups and inp = "[]" and result = "''++++++''" and rs = "sconst 0"] lb e
  have 2: "\<exists>g'. get_guess remdups [] (opened words1 ''abcde'') ''++++++'' (sconst 0)
              = Some (Inl (IndexError_string_index, g'))"
    by blast
  from feedback_length_is_not_checked
         [OF b, where ord = remdups and inp = "[]" and result = "''++++''" and rs = "sconst 0"] lb s
  have 3: "\<exists>g'. process_feedback (last (tried (opened words1 ''abcde''))) (enumerate 0 ''++++'')
               (opened words1 ''abcde'') = (None, g')
          \<and> (\<forall>e g''. get_guess remdups [] (opened words1 ''abcde'') ''++++'' (sconst 0)
                          = Some (Inl (e, g'')) \<longrightarrow> g'' = g' \<and> e \<noteq> ValueError)"
    by blast
  from a la 1 b lb k 2 s 3 show ?thesis by blast
qed

theorem short_feedback_counterexample:
  "length ''++++'' \<noteq> (5::nat)
   \<and> get_guess remdups [] (opened words1 ''abcde'') ''++++'' (sconst 0)
       = Some (Inr (''fgghi'',
                    (opened words1 ''abcde'')
                      \<lparr>tried := [''abcde'', ''fgghi''], guess_count := 2,
                        invalid_letters := {CHR ''d'', CHR ''c'', CHR ''b'', CHR ''a''}\<rparr>,
                    sconst 0))"
  by (simp add: eval_get_guess words1_def)

subsection \<open>Feedback that is exact at every position\<close>

lemma process_feedback_all_exact:
  assumes "\<forall>c \<in> set xs. isalpha c"
    and "n + length xs \<le> length lg"
    and "length (correct_positions g) = length lg"
  shows "\<exists>g'. process_feedback lg (enumerate n xs) g = (None, g')
       \<and> misplaced_letters g' = misplaced_letters g
       \<and> invalid_letters g' = invalid_letters g - {lg ! i | i. n \<le> i \<and> i < n + length xs}
       \<and> length (correct_positions g') = length lg
       \<and> (\<forall>i. correct_positions g' ! i =
                (if n \<le> i \<and> i < n + length xs then [lg ! i] else correct_positions g ! i))"
  using assms
proof (induction xs arbitrary: n g)
  case Nil
  then show ?case by auto
next
  case (Cons x xs)
  let ?g1 = "g\<lparr>correct_positions := (correct_positions g)[n := [lg ! n]],
                 invalid_letters :=
                   (if lg ! n \<in> invalid_letters g
                    then invalid_letters g - {lg ! n} else invalid_letters g)\<rparr>"
  have step: "process_feedback lg (enumerate n (x # xs)) g
              = process_feedback lg (enumerate (Suc n) xs) ?g1"
    using Cons.prems by simp
  have "\<exists>g'. process_feedback lg (enumerate (Suc n) xs) ?g1 = (None, g')
       \<and> misplaced_letters g' = misplaced_letters ?g1
       \<and> invalid_letters g' = invalid_letters ?g1 - {lg ! i | i. Suc n \<le> i \<and> i < Suc n + length xs}
       \<and> length (correct_positions g') = length lg
       \<and> (\<forall>i. correct_positions g' ! i =
                (if Suc n \<le> i \<and> i < Suc n + length xs then [lg ! i] else correct_positions ?g1 ! i))"
    using Cons.prems by (intro Cons.IH) auto
  then obtain g' where g': "process_feedback lg (enumerate (Suc n) xs) ?g1 = (None, g')"
       "misplaced_letters g' = misplaced_letters ?g1"
       "invalid_letters g' = invalid_letters ?g1 - {lg ! i | i. Suc n \<le> i \<and> i < Suc n + length xs}"
       "length (correct_positions g') = length lg"
       "\<forall>i. correct_positions g' ! i =
                (if Suc n \<le> i \<and> i < Suc n + length xs then [lg ! i] else correct_positions ?g1 ! i)"
    by blast
  have s: "{lg ! i | i. n \<le> i \<and> i < n + length (x # xs)}
           = insert (lg ! n) {lg ! i | i. Suc n \<le> i \<and> i < Suc n + length xs}"
  proof -
    have "\<And>i. (n \<le> i \<and> i < n + length (x # xs)) = (i = n \<or> Suc n \<le> i \<and> i < Suc n + length xs)"
      by auto
    then show ?thesis by auto
  qed
  have inv: "invalid_letters g' = invalid_letters g - {lg ! i | i. n \<le> i \<and> i < n + length (x # xs)}"
    unfolding g'(3) s by auto
  have nl: "n < length (correct_positions g)" using Cons.prems by simp
  have cp: "\<forall>i. correct_positions g' ! i =
                (if n \<le> i \<and> i < n + length (x # xs) then [lg ! i] else correct_positions g ! i)"
  proof
    fix i
    show "correct_positions g' ! i =
                (if n \<le> i \<and> i < n + length (x # xs) then [lg ! i] else correct_positions g ! i)"
      using g'(5) [rule_format, of i] nl by (cases "i = n") auto
  qed
  from step g'(1,2,4) inv cp show ?case by simp
qed

lemma all_exact_state:
  assumes "\<forall>c \<in> set result. isalpha c" and "length result = 5" and "length lg = 5"
    and "length (correct_positions g) = 5"
  shows "\<exists>g'. process_feedback lg (enumerate 0 result) g = (None, g')
       \<and> misplaced_letters g' = misplaced_letters g
       \<and> invalid_letters g' = invalid_letters g - set lg
       \<and> correct_positions g' = map (\<lambda>c. [c]) lg"
proof -
  from process_feedback_all_exact [of result 0 lg g] assms
  obtain g' where g': "process_feedback lg (enumerate 0 result) g = (None, g')"
       "misplaced_letters g' = misplaced_letters g"
       "invalid_letters g' = invalid_letters g - {lg ! i | i. 0 \<le> i \<and> i < 0 + length result}"
       "length (correct_positions g') = length lg"
       "\<forall>i. correct_positions g' ! i =
                (if 0 \<le> i \<and> i < 0 + length result then [lg ! i] else correct_positions g ! i)"
    by auto
  have "{lg ! i | i. 0 \<le> i \<and> i < 0 + length result} = set lg"
    using assms(2,3) by (auto simp: set_conv_nth)
  with g'(3) have inv: "invalid_letters g' = invalid_letters g - set lg" by simp
  have "correct_positions g' = map (\<lambda>c. [c]) lg"
    using g'(4,5) assms(2,3) by (intro nth_equalityI) auto
  with g'(1,2) inv show ?thesis by blast
qed

lemma qualifies_all_exact:
  assumes "length w = 5" "length lg = 5"
    and "misplaced_letters g' = misplaced_letters g"
    and "invalid_letters g' = invalid_letters g - set lg"
    and "correct_positions g' = map (\<lambda>c. [c]) lg"
  shows "qualifies g' w \<longleftrightarrow> w = lg \<and> fits_misplaced g lg"
proof
  assume q: "qualifies g' w"
  have "w = lg"
  proof (rule nth_equalityI)
    show "length w = length lg" using assms by simp
  next
    fix i assume "i < length w"
    with assms(1) have i: "i < 5" by simp
    with q assms(2,5) show "w ! i = lg ! i" by (auto simp: qualifies_def)
  qed
  with q assms(3) show "w = lg \<and> fits_misplaced g lg"
    by (simp add: qualifies_def fits_misplaced_def)
next
  assume "w = lg \<and> fits_misplaced g lg"
  with assms show "qualifies g' w"
    by (auto simp: qualifies_def fits_misplaced_def)
qed

text \<open>
  Claim C7, as the code has it. For a dictionary of 5-letter words, a previous guess
  of 5 letters and feedback of 5 letters, the update succeeds and every candidate
  computed from the updated state is the previous guess. The candidate set is
  exactly that one word when the previous guess is a dictionary word that agrees with
  the misplaced-letter records of the state (it contains every misplaced letter, none
  at a recorded position), and empty otherwise: a synthetic guess that is not in the
  dictionary is never a candidate.
\<close>

theorem all_exact_leaves_only_last_guess:
  assumes "\<forall>w \<in> set (word_list g). length w = 5"
    and "length (correct_positions g) = 5" and "length lg = 5"
    and "length result = 5" and "\<forall>c \<in> set result. isalpha c"
  shows "\<exists>g' c. process_feedback lg (enumerate 0 result) g = (None, g')
           \<and> filtered_word_list g' = Inr c
           \<and> set c = (if lg \<in> set (word_list g) \<and> fits_misplaced g lg then {lg} else {})"
proof -
  from all_exact_state [OF assms(5,4,3,2)] obtain g' where
    g': "process_feedback lg (enumerate 0 result) g = (None, g')"
        "misplaced_letters g' = misplaced_letters g"
        "invalid_letters g' = invalid_letters g - set lg"
        "correct_positions g' = map (\<lambda>c. [c]) lg"
    by blast
  have f: "filtered_word_list g' = Inr (filter (qualifies g') (word_list g))"
    by (rule filtered_after_update [OF assms(1,2) g'(1)])
  have "set (filter (qualifies g') (word_list g))
        = (if lg \<in> set (word_list g) \<and> fits_misplaced g lg then {lg} else {})"
    using assms(1) qualifies_all_exact [OF _ assms(3) g'(2,3,4)] by auto
  with g'(1) f show ?thesis by blast
qed

theorem all_exact_leaves_only_last_guess_witness:
  "length (correct_positions (opened words3 ''abcde'')) = 5
   \<and> ''abcde'' \<in> set (word_list (opened words3 ''abcde''))
   \<and> fits_misplaced (opened words3 ''abcde'') ''abcde''
   \<and> (\<exists>g' c. process_feedback ''abcde'' (enumerate 0 ''abcde'') (opened words3 ''abcde'')
                = (None, g')
              \<and> filtered_word_list g' = Inr c \<and> set c = {''abcde''})"
proof -
  have w: "\<forall>w \<in> set (word_list (opened words3 ''abcde'')). length w = 5"
    and l: "length (correct_positions (opened words3 ''abcde'')) = 5"
    and i: "''abcde'' \<in> set (word_list (opened words3 ''abcde''))"
    and f: "fits_misplaced (opened words3 ''abcde'') ''abcde''"
    by (simp_all add: opened_def fresh_def words3_def fits_misplaced_def)
  have c: "\<forall>c \<in> set ''abcde''. isalpha c" by (simp add: isalpha_lower)
  from all_exact_leaves_only_last_guess [OF w l _ _ c, where lg = "''abcde''"] l i f
  show ?thesis by simp
qed

theorem all_exact_synthetic_guess_counterexample:
  "guesser_init ''auto'' words2 = Inr (fresh words2 ''anple'')
   \<and> get_guess remdups [] (fresh words2 ''anple'') [] (sconst 0)
       = Some (Inr (''anple'', opened words2 ''anple'', sconst 0))
   \<and> process_feedback ''anple'' (enumerate 0 ''anple'') (opened words2 ''anple'')
       = (None, exact_anple)
   \<and> filtered_word_list exact_anple = Inr []"
proof -
  have 1: "process_feedback ''anple'' (enumerate 0 ''anple'') (opened words2 ''anple'')
       = (None, exact_anple)"
    by (simp add: exact_anple_def opened_def fresh_def isalpha_lower)
  have 2: "filtered_word_list exact_anple = Inr []"
    by (simp add: exact_anple_def filtered_word_list_def word_passes_def opened_def
          fresh_def words2_def range5_def)
  from 1 2 show ?thesis by (simp add: init2 first_call)
qed

subsection \<open>The frequency analysis\<close>




















subsection \<open>Candidates under consistent feedback\<close>

lemma consistent_from_start:
  "consistent target guess result \<Longrightarrow> consistent_from target guess 0 result {}"
  unfolding consistent_def consistent_from_def by auto

lemma consistent_from_Cons:
  assumes "consistent_from target guess n (x # xs) seen"
  shows "consistent_from target guess (Suc n) xs
           (if isalpha x \<or> x = CHR ''-'' then insert (guess ! n) seen else seen)"
  unfolding consistent_from_def
proof (intro conjI allI impI)
  show "Suc n + length xs \<le> 5" using assms by (simp add: consistent_from_def)
next
  fix j assume j: "j < length xs" and "isalpha (xs ! j)"
  with assms show "guess ! (Suc n + j) = target ! (Suc n + j)"
    unfolding consistent_from_def by (auto dest!: spec [of _ "Suc j"])
next
  fix j assume j: "j < length xs" and "xs ! j = CHR ''-''"
  with assms show "guess ! (Suc n + j) \<in> set target"
    unfolding consistent_from_def by (auto dest!: spec [of _ "Suc j"])
next
  fix j assume j: "j < length xs" and "xs ! j = CHR ''-''"
  with assms show "guess ! (Suc n + j) \<noteq> target ! (Suc n + j)"
    unfolding consistent_from_def by (auto dest!: spec [of _ "Suc j"])
next
  fix j assume j: "j < length xs" and p: "xs ! j = CHR ''+'' \<and> guess ! (Suc n + j) \<in> set target"
  let ?L = "guess ! (Suc n + j)"
  let ?seen = "if isalpha x \<or> x = CHR ''-'' then insert (guess ! n) seen else seen"
  from assms j p have "?L \<in> seen
      \<or> (\<exists>k < length (x # xs). guess ! (n + k) = ?L
             \<and> (isalpha ((x # xs) ! k) \<or> k < Suc j \<and> (x # xs) ! k = CHR ''-''))"
    unfolding consistent_from_def by (auto dest!: spec [of _ "Suc j"])
  then show "?L \<in> ?seen
      \<or> (\<exists>k < length xs. guess ! (Suc n + k) = ?L \<and> (isalpha (xs ! k) \<or> k < j \<and> xs ! k = CHR ''-''))"
  proof
    assume "?L \<in> seen"
    then show ?thesis by simp
  next
    assume "\<exists>k < length (x # xs). guess ! (n + k) = ?L
             \<and> (isalpha ((x # xs) ! k) \<or> k < Suc j \<and> (x # xs) ! k = CHR ''-'')"
    then obtain k where k: "k < length (x # xs)" "guess ! (n + k) = ?L"
        "isalpha ((x # xs) ! k) \<or> k < Suc j \<and> (x # xs) ! k = CHR ''-''" by blast
    show ?thesis
    proof (cases k)
      case 0
      with k have "guess ! n = ?L" "isalpha x \<or> x = CHR ''-''" by auto
      then show ?thesis by auto
    next
      case (Suc k')
      with k have "k' < length xs" "guess ! (Suc n + k') = ?L"
        "isalpha (xs ! k') \<or> k' < j \<and> xs ! k' = CHR ''-''" by auto
      then show ?thesis by blast
    qed
  qed
qed

lemma sound_mid_step:
  assumes t: "length target = 5" and lg: "length guess = 5"
    and c: "consistent_from target guess n (x # xs) seen"
    and s: "sound_mid target guess n (x # xs) seen g"
  shows "\<exists>g1. process_feedback guess (enumerate n (x # xs)) g
               = process_feedback guess (enumerate (Suc n) xs) g1
            \<and> sound_mid target guess (Suc n) xs
                 (if isalpha x \<or> x = CHR ''-'' then insert (guess ! n) seen else seen) g1"
proof -
  from c have n: "n < 5" by (simp add: consistent_from_def)
  from s have l: "length (correct_positions g) = 5"
    and b: "\<forall>i < 5. correct_positions g ! i \<noteq> [] \<longrightarrow> correct_positions g ! i = [target ! i]"
    and m: "\<forall>L P. misplaced_letters g L = Some P \<longrightarrow>
              L \<in> set target \<and> (\<forall>p \<in> P. p < 5 \<longrightarrow> target ! p \<noteq> L)"
    and sn: "\<forall>L \<in> seen. misplaced_letters g L \<noteq> None \<or> [L] \<in> set (correct_positions g)"
    and iv: "\<forall>L \<in> invalid_letters g. L \<in> set target \<longrightarrow>
               (\<exists>j < length (x # xs). guess ! (n + j) = L \<and> isalpha ((x # xs) ! j))"
    by (simp_all add: sound_mid_def)
  have later: "\<And>L. \<not> isalpha x \<or> L \<noteq> guess ! n \<Longrightarrow> L \<in> invalid_letters g \<Longrightarrow> L \<in> set target
        \<Longrightarrow> \<exists>j < length xs. guess ! (Suc n + j) = L \<and> isalpha (xs ! j)"
  proof -
    fix L assume h: "\<not> isalpha x \<or> L \<noteq> guess ! n" "L \<in> invalid_letters g" "L \<in> set target"
    with iv obtain j where j: "j < length (x # xs)" "guess ! (n + j) = L" "isalpha ((x # xs) ! j)"
      by blast
    with h(1) have "j \<noteq> 0" by (cases j) auto
    then obtain k where "j = Suc k" by (cases j) auto
    with j show "\<exists>j < length xs. guess ! (Suc n + j) = L \<and> isalpha (xs ! j)" by auto
  qed
  consider (exact) "isalpha x"
    | (present) "\<not> isalpha x" "x = CHR ''-''"
    | (absent) "\<not> isalpha x" "x \<noteq> CHR ''-''" "x = CHR ''+''"
    | (other) "\<not> isalpha x" "x \<noteq> CHR ''-''" "x \<noteq> CHR ''+''"
    by blast
  then show ?thesis
  proof cases
    case exact
    let ?g1 = "g\<lparr>correct_positions := (correct_positions g)[n := [guess ! n]],
                  invalid_letters :=
                    (if guess ! n \<in> invalid_letters g
                     then invalid_letters g - {guess ! n} else invalid_letters g)\<rparr>"
    from c exact have e: "guess ! n = target ! n"
      by (auto simp: consistent_from_def dest!: spec [of _ 0])
    have cp: "\<And>i. i < 5 \<Longrightarrow> correct_positions g ! i \<noteq> [] \<Longrightarrow>
                (correct_positions g)[n := [guess ! n]] ! i = correct_positions g ! i"
      using b e l by (metis nth_list_update_eq nth_list_update_neq)
    have 1: "\<forall>i < 5. correct_positions ?g1 ! i \<noteq> [] \<longrightarrow> correct_positions ?g1 ! i = [target ! i]"
      using b e l n by (auto simp: nth_list_update)
    have 2: "\<forall>L \<in> insert (guess ! n) seen.
               misplaced_letters ?g1 L \<noteq> None \<or> [L] \<in> set (correct_positions ?g1)"
    proof
      fix L assume L: "L \<in> insert (guess ! n) seen"
      show "misplaced_letters ?g1 L \<noteq> None \<or> [L] \<in> set (correct_positions ?g1)"
      proof (cases "L = guess ! n")
        case True
        then have "[L] \<in> set ((correct_positions g)[n := [guess ! n]])"
          using n l by (simp add: set_update_memI)
        then show ?thesis by simp
      next
        case False
        with L sn have "misplaced_letters g L \<noteq> None \<or> [L] \<in> set (correct_positions g)" by auto
        then show ?thesis
        proof
          assume "misplaced_letters g L \<noteq> None"
          then show ?thesis by simp
        next
          assume "[L] \<in> set (correct_positions g)"
          then obtain p where p: "p < 5" "correct_positions g ! p = [L]"
            using l by (auto simp: in_set_conv_nth)
          then have "(correct_positions g)[n := [guess ! n]] ! p = [L]"
            using cp [of p] by simp
          then have "[L] \<in> set ((correct_positions g)[n := [guess ! n]])"
            using p(1) l by (metis length_list_update nth_mem)
          then show ?thesis by simp
        qed
      qed
    qed
    have 3: "\<forall>L \<in> invalid_letters ?g1. L \<in> set target \<longrightarrow>
               (\<exists>j < length xs. guess ! (Suc n + j) = L \<and> isalpha (xs ! j))"
    proof (intro ballI impI)
      fix L assume L: "L \<in> invalid_letters ?g1" "L \<in> set target"
      then have "L \<in> invalid_letters g" "L \<noteq> guess ! n" by (auto split: if_splits)
      with later L(2) show "\<exists>j < length xs. guess ! (Suc n + j) = L \<and> isalpha (xs ! j)" by blast
    qed
    have "sound_mid target guess (Suc n) xs (insert (guess ! n) seen) ?g1"
      unfolding sound_mid_def using 1 2 3 l m by simp
    moreover have "process_feedback guess (enumerate n (x # xs)) g
               = process_feedback guess (enumerate (Suc n) xs) ?g1"
      using exact n l lg by simp
    ultimately show ?thesis using exact by auto
  next
    case present
    let ?g1 = "g\<lparr>misplaced_letters := (misplaced_letters g)
                     (guess ! n \<mapsto> insert n (case misplaced_letters g (guess ! n) of
                                               None \<Rightarrow> {} | Some P \<Rightarrow> P))\<rparr>"
    from c present have e: "guess ! n \<in> set target" "guess ! n \<noteq> target ! n"
      by (auto simp: consistent_from_def dest!: spec [of _ 0])
    have 1: "\<forall>L P. misplaced_letters ?g1 L = Some P \<longrightarrow>
              L \<in> set target \<and> (\<forall>p \<in> P. p < 5 \<longrightarrow> target ! p \<noteq> L)"
      using m e by (auto split: option.splits if_splits)
    have 2: "\<forall>L \<in> insert (guess ! n) seen.
               misplaced_letters ?g1 L \<noteq> None \<or> [L] \<in> set (correct_positions ?g1)"
      using sn by auto
    have 3: "\<forall>L \<in> invalid_letters ?g1. L \<in> set target \<longrightarrow>
               (\<exists>j < length xs. guess ! (Suc n + j) = L \<and> isalpha (xs ! j))"
      using later present(1) by simp
    have "sound_mid target guess (Suc n) xs (insert (guess ! n) seen) ?g1"
      unfolding sound_mid_def using 1 2 3 l b by simp
    moreover have "process_feedback guess (enumerate n (x # xs)) g
               = process_feedback guess (enumerate (Suc n) xs) ?g1"
      using present n lg by simp
    ultimately show ?thesis using present by auto
  next
    case absent
    show ?thesis
    proof (cases "misplaced_letters g (guess ! n) = None \<and> [guess ! n] \<notin> set (correct_positions g)")
      case True
      let ?g1 = "g\<lparr>invalid_letters := insert (guess ! n) (invalid_letters g)\<rparr>"
      have new: "guess ! n \<in> set target \<Longrightarrow>
                 \<exists>j < length xs. guess ! (Suc n + j) = guess ! n \<and> isalpha (xs ! j)"
      proof -
        assume "guess ! n \<in> set target"
        with c absent have "guess ! n \<in> seen
            \<or> (\<exists>k < length (x # xs). guess ! (n + k) = guess ! n
                  \<and> (isalpha ((x # xs) ! k) \<or> k < 0 \<and> (x # xs) ! k = CHR ''-''))"
          by (auto simp: consistent_from_def dest!: spec [of _ 0])
        moreover have "guess ! n \<notin> seen" using sn True by auto
        ultimately obtain k where k: "k < length (x # xs)" "guess ! (n + k) = guess ! n"
            "isalpha ((x # xs) ! k)" by auto
        with absent(1) have "k \<noteq> 0" by (cases k) auto
        then obtain k' where "k = Suc k'" by (cases k) auto
        with k show ?thesis by auto
      qed
      have 3: "\<forall>L \<in> invalid_letters ?g1. L \<in> set target \<longrightarrow>
               (\<exists>j < length xs. guess ! (Suc n + j) = L \<and> isalpha (xs ! j))"
        using later absent(1) new by auto
      have "sound_mid target guess (Suc n) xs seen ?g1"
        unfolding sound_mid_def using 3 l b m sn by simp
      moreover have "process_feedback guess (enumerate n (x # xs)) g
               = process_feedback guess (enumerate (Suc n) xs) ?g1"
        using absent True n lg by simp
      ultimately show ?thesis using absent by auto
    next
      case False
      have 3: "\<forall>L \<in> invalid_letters g. L \<in> set target \<longrightarrow>
               (\<exists>j < length xs. guess ! (Suc n + j) = L \<and> isalpha (xs ! j))"
        using later absent(1) by simp
      have "sound_mid target guess (Suc n) xs seen g"
        unfolding sound_mid_def using 3 l b m sn by simp
      moreover have "process_feedback guess (enumerate n (x # xs)) g
               = process_feedback guess (enumerate (Suc n) xs) g"
        using absent False n lg by auto
      ultimately show ?thesis using absent by auto
    qed
  next
    case other
    have 3: "\<forall>L \<in> invalid_letters g. L \<in> set target \<longrightarrow>
             (\<exists>j < length xs. guess ! (Suc n + j) = L \<and> isalpha (xs ! j))"
      using later other(1) by simp
    have "sound_mid target guess (Suc n) xs seen g"
      unfolding sound_mid_def using 3 l b m sn by simp
    moreover have "process_feedback guess (enumerate n (x # xs)) g
             = process_feedback guess (enumerate (Suc n) xs) g"
      using other by simp
    ultimately show ?thesis using other by auto
  qed
qed

lemma process_feedback_sound_mid:
  assumes t: "length target = 5" and lg: "length guess = 5"
  shows "consistent_from target guess n xs seen \<Longrightarrow> sound_mid target guess n xs seen g \<Longrightarrow>
         \<exists>g' seen'. process_feedback guess (enumerate n xs) g = (None, g')
                  \<and> sound_mid target guess (n + length xs) [] seen' g'"
proof (induction xs arbitrary: n seen g)
  case Nil
  then show ?case by auto
next
  case (Cons x xs)
  from sound_mid_step [OF t lg Cons.prems] obtain g1 where
    1: "process_feedback guess (enumerate n (x # xs)) g
          = process_feedback guess (enumerate (Suc n) xs) g1"
    and 2: "sound_mid target guess (Suc n) xs
              (if isalpha x \<or> x = CHR ''-'' then insert (guess ! n) seen else seen) g1"
    by blast
  from Cons.IH [OF consistent_from_Cons [OF Cons.prems(1)] 2] 1
  show ?case by auto
qed

lemma qualifies_sound_mid:
  assumes "length target = 5" "length (correct_positions g) = 5" "qualifies g target"
  shows "sound_mid target guess 0 result {} g"
  using assms unfolding sound_mid_def qualifies_def by (auto simp: dom_def)

lemma sound_mid_qualifies:
  assumes "length target = 5" "sound_mid target guess n [] seen g"
  shows "qualifies g target \<and> length (correct_positions g) = 5"
  using assms unfolding sound_mid_def qualifies_def by (auto simp: dom_def)

lemma process_feedback_keeps_target:
  assumes "length target = 5" "length guess = 5" "length (correct_positions g) = 5"
    and "qualifies g target" "consistent target guess result"
  shows "\<exists>g'. process_feedback guess (enumerate 0 result) g = (None, g')
            \<and> qualifies g' target \<and> length (correct_positions g') = 5"
proof -
  from process_feedback_sound_mid
         [OF assms(1,2) consistent_from_start [OF assms(5)]
             qualifies_sound_mid [OF assms(1,3,4)]]
  obtain g' seen' where "process_feedback guess (enumerate 0 result) g = (None, g')"
    "sound_mid target guess (0 + length result) [] seen' g'" by blast
  with sound_mid_qualifies [OF assms(1)] show ?thesis by blast
qed

lemma tighter_refl: "tighter g g"
  by (simp add: tighter_def)

lemma tighter_qualifies:
  assumes tg: "tighter g0 g" and q: "qualifies g w"
  shows "qualifies g0 w"
proof -
  from tg have i0: "invalid_letters g0 \<subseteq> invalid_letters g"
    and c0: "\<And>i. i < 5 \<Longrightarrow> correct_positions g0 ! i \<noteq> [] \<Longrightarrow>
               correct_positions g ! i = correct_positions g0 ! i"
    and m0: "\<And>L P. misplaced_letters g0 L = Some P \<Longrightarrow>
               \<exists>P'. misplaced_letters g L = Some P' \<and> P \<subseteq> P'"
    by (simp_all add: tighter_def)
  from q have qa: "\<forall>letter \<in> invalid_letters g. letter \<notin> set w"
    and qb: "\<And>i. i < 5 \<Longrightarrow> correct_positions g ! i \<noteq> [] \<Longrightarrow> [w ! i] = correct_positions g ! i"
    and qc: "\<And>L P p. misplaced_letters g L = Some P \<Longrightarrow> p \<in> P \<Longrightarrow> p < length w \<Longrightarrow> w ! p \<noteq> L"
    and qd: "\<And>L. L \<in> dom (misplaced_letters g) \<Longrightarrow> L \<in> set w"
    by (simp_all add: qualifies_def)
  have a: "\<forall>letter \<in> invalid_letters g0. letter \<notin> set w"
    using i0 qa by blast
  have b: "\<forall>i < 5. correct_positions g0 ! i \<noteq> [] \<longrightarrow> [w ! i] = correct_positions g0 ! i"
  proof (intro allI impI)
    fix i :: nat assume i: "i < 5" "correct_positions g0 ! i \<noteq> []"
    from c0 [OF i] have e: "correct_positions g ! i = correct_positions g0 ! i" .
    with i(2) have "correct_positions g ! i \<noteq> []" by simp
    from qb [OF i(1) this] e show "[w ! i] = correct_positions g0 ! i" by simp
  qed
  have c: "\<forall>L P. misplaced_letters g0 L = Some P \<longrightarrow> (\<forall>p \<in> P. p < length w \<longrightarrow> w ! p \<noteq> L)"
  proof (intro allI impI ballI)
    fix L P p assume h: "misplaced_letters g0 L = Some P" "p \<in> P" "p < length w"
    from m0 [OF h(1)] obtain P' where P': "misplaced_letters g L = Some P'" "P \<subseteq> P'" by blast
    with h(2) have "p \<in> P'" by blast
    from qc [OF P'(1) this h(3)] show "w ! p \<noteq> L" .
  qed
  have d: "\<forall>L \<in> dom (misplaced_letters g0). L \<in> set w"
  proof
    fix L assume "L \<in> dom (misplaced_letters g0)"
    then obtain P where "misplaced_letters g0 L = Some P" by blast
    from m0 [OF this] have "L \<in> dom (misplaced_letters g)" by blast
    then show "L \<in> set w" by (rule qd)
  qed
  from a b c d show ?thesis by (simp add: qualifies_def)
qed

lemma process_feedback_tighter:
  assumes t: "length target = 5" and q: "qualifies g0 target"
  shows "consistent_from target guess n xs seen \<Longrightarrow> tighter g0 g \<Longrightarrow>
         process_feedback guess (enumerate n xs) g = (e, g') \<Longrightarrow> tighter g0 g'"
proof (induction xs arbitrary: n seen g)
  case Nil
  then show ?case by simp
next
  case (Cons x xs)
  note c' = consistent_from_Cons [OF Cons.prems(1)]
  from Cons.prems(1) have n: "n < 5" by (simp add: consistent_from_def)
  from Cons.prems(2) have i0: "invalid_letters g0 \<subseteq> invalid_letters g"
    and c0: "\<forall>i < 5. correct_positions g0 ! i \<noteq> [] \<longrightarrow> correct_positions g ! i = correct_positions g0 ! i"
    and m0: "\<forall>L P. misplaced_letters g0 L = Some P \<longrightarrow>
         (\<exists>P'. misplaced_letters g L = Some P' \<and> P \<subseteq> P')"
    by (simp_all add: tighter_def)
  consider (exact) "isalpha x"
    | (present) "\<not> isalpha x" "x = CHR ''-''"
    | (absent) "\<not> isalpha x" "x \<noteq> CHR ''-''" "x = CHR ''+''"
    | (other) "\<not> isalpha x" "x \<noteq> CHR ''-''" "x \<noteq> CHR ''+''"
    by blast
  then show ?case
  proof cases
    case exact
    let ?g1 = "g\<lparr>correct_positions := (correct_positions g)[n := [guess ! n]],
                  invalid_letters :=
                    (if guess ! n \<in> invalid_letters g
                     then invalid_letters g - {guess ! n} else invalid_letters g)\<rparr>"
    show ?thesis
    proof (cases "length guess \<le> n \<or> length (correct_positions g) \<le> n")
      case True
      with exact Cons.prems(3) have "g' = g" by (auto split: if_splits)
      with Cons.prems(2) show ?thesis by simp
    next
      case False
      from Cons.prems(1) exact have e: "guess ! n = target ! n"
        by (auto simp: consistent_from_def dest!: spec [of _ 0])
      with n t have "guess ! n \<in> set target" by simp
      with q have ni: "guess ! n \<notin> invalid_letters g0" by (auto simp: qualifies_def)
      have "correct_positions g0 ! n \<noteq> [] \<longrightarrow> correct_positions g0 ! n = [guess ! n]"
        using q n e by (auto simp: qualifies_def)
      then have "\<forall>i < 5. correct_positions g0 ! i \<noteq> [] \<longrightarrow>
                  (correct_positions g)[n := [guess ! n]] ! i = correct_positions g0 ! i"
        using c0 False by (auto simp: nth_list_update)
      with i0 ni m0 have tg: "tighter g0 ?g1" by (auto simp: tighter_def)
      from Cons.prems(3) exact False
      have "process_feedback guess (enumerate (Suc n) xs) ?g1 = (e, g')" by simp
      from Cons.IH [OF c' tg this] show ?thesis .
    qed
  next
    case present
    let ?g1 = "g\<lparr>misplaced_letters := (misplaced_letters g)
                     (guess ! n \<mapsto> insert n (case misplaced_letters g (guess ! n) of
                                               None \<Rightarrow> {} | Some P \<Rightarrow> P))\<rparr>"
    show ?thesis
    proof (cases "length guess \<le> n")
      case True
      with present Cons.prems(3) have "g' = g" by auto
      with Cons.prems(2) show ?thesis by simp
    next
      case False
      have "\<forall>L P. misplaced_letters g0 L = Some P \<longrightarrow>
         (\<exists>P'. misplaced_letters ?g1 L = Some P' \<and> P \<subseteq> P')"
      proof (intro allI impI)
        fix L P assume h: "misplaced_letters g0 L = Some P"
        from m0 h obtain P' where P': "misplaced_letters g L = Some P'" "P \<subseteq> P'" by blast
        show "\<exists>P'. misplaced_letters ?g1 L = Some P' \<and> P \<subseteq> P'"
        proof (cases "L = guess ! n")
          case True
          with P' show ?thesis by auto
        next
          case False
          with P' show ?thesis by auto
        qed
      qed
      with i0 c0 have tg: "tighter g0 ?g1" by (simp add: tighter_def)
      from Cons.prems(3) present False
      have "process_feedback guess (enumerate (Suc n) xs) ?g1 = (e, g')" by simp
      from Cons.IH [OF c' tg this] show ?thesis .
    qed
  next
    case absent
    show ?thesis
    proof (cases "length guess \<le> n")
      case True
      with absent Cons.prems(3) have "g' = g" by auto
      with Cons.prems(2) show ?thesis by simp
    next
      case False
      show ?thesis
      proof (cases "misplaced_letters g (guess ! n) = None
                    \<and> [guess ! n] \<notin> set (correct_positions g)")
        case True
        let ?g1 = "g\<lparr>invalid_letters := insert (guess ! n) (invalid_letters g)\<rparr>"
        from i0 c0 m0 have tg: "tighter g0 ?g1" by (auto simp: tighter_def)
        from Cons.prems(3) absent False True
        have "process_feedback guess (enumerate (Suc n) xs) ?g1 = (e, g')" by simp
        from Cons.IH [OF c' tg this] show ?thesis .
      next
        case F: False
        from Cons.prems(3) absent False F
        have "process_feedback guess (enumerate (Suc n) xs) g = (e, g')" by auto
        from Cons.IH [OF c' Cons.prems(2) this] show ?thesis .
      qed
    qed
  next
    case other
    from Cons.prems(3) other
    have "process_feedback guess (enumerate (Suc n) xs) g = (e, g')" by simp
    from Cons.IH [OF c' Cons.prems(2) this] show ?thesis .
  qed
qed

lemma all_less_5: "(\<forall>i < 5. P i) \<longleftrightarrow> P 0 \<and> P 1 \<and> P 2 \<and> P 3 \<and> P (4::nat)"
proof -
  have "\<And>i::nat. i < 5 \<longleftrightarrow> i = 0 \<or> i = 1 \<or> i = 2 \<or> i = 3 \<or> i = 4" by arith
  then show ?thesis by auto
qed

lemma qualifies_fields:
  "invalid_letters g' = invalid_letters g \<Longrightarrow> correct_positions g' = correct_positions g \<Longrightarrow>
   misplaced_letters g' = misplaced_letters g \<Longrightarrow> qualifies g' w = qualifies g w"
  by (simp add: qualifies_def)

lemma get_guess_step:
  assumes au: "manual g \<noteq> ''manual''" and tr: "tried g \<noteq> []"
    and gg: "get_guess ord inp g result rs = Some (Inr (guess, g', rs'))"
  shows "\<exists>guess1 f g1 rs1.
           later_guess ord g result rs = Inr (guess1, f, g1, rs1)
         \<and> length (last (tried g)) = 5
         \<and> process_feedback (last (tried g)) (enumerate 0 result) g = (None, g1)
         \<and> filtered_word_list g1 = Inr f
         \<and> g' = g1\<lparr>tried := tried g1 @ [guess], guess_count := guess_count g1 + 1\<rparr>"
proof -
  from get_guess_Inr [OF au gg] tr obtain g1 guess1 rs1 f where
    l: "later_guess ord g result rs = Inr (guess1, f, g1, rs1)"
    and g': "g' = g1\<lparr>tried := tried g1 @ [guess], guess_count := guess_count g1 + 1\<rparr>"
    by auto
  from later_guess_Inr [OF l] l g' show ?thesis by blast
qed

lemma consistent_turn:
  assumes d: "\<forall>w \<in> set (word_list g). length w = 5" and t: "length target = 5"
    and l: "length (correct_positions g) = 5" and q: "qualifies g target"
    and c: "tried g = [] \<or> consistent target (last (tried g)) result"
    and gg: "get_guess ord inp g result rs = Some (Inr (guess, g', rs'))"
  shows "word_list g' = word_list g \<and> length (correct_positions g') = 5
       \<and> qualifies g' target \<and> (\<forall>w. qualifies g' w \<longrightarrow> qualifies g w)"
proof (cases "manual g = ''manual''")
  case True
  with gg have "g' = g" by (simp add: get_guess_manual)
  with l q show ?thesis by simp
next
  case au: False
  show ?thesis
  proof (cases "tried g = []")
    case True
    from get_guess_Inr [OF au gg] True
    have g': "g' = g\<lparr>tried := tried g @ [guess], guess_count := guess_count g + 1\<rparr>"
      by auto
    have "\<And>w. qualifies g' w = qualifies g w"
      by (rule qualifies_fields) (simp_all add: g')
    with l q show ?thesis by (simp add: g')
  next
    case False
    with c have c': "consistent target (last (tried g)) result" by simp
    from get_guess_step [OF au False gg] obtain g1 where
      lg: "length (last (tried g)) = 5"
      and p: "process_feedback (last (tried g)) (enumerate 0 result) g = (None, g1)"
      and g': "g' = g1\<lparr>tried := tried g1 @ [guess], guess_count := guess_count g1 + 1\<rparr>"
      by blast
    from process_feedback_keeps_target [OF t lg l q c'] p
    have q1: "qualifies g1 target" and l1: "length (correct_positions g1) = 5" by auto
    have tg: "tighter g g1"
      by (rule process_feedback_tighter
            [OF t q consistent_from_start [OF c'] tighter_refl p])
    have e: "\<And>w. qualifies g' w = qualifies g1 w"
      by (rule qualifies_fields) (simp_all add: g')
    have w: "word_list g' = word_list g"
      using process_feedback_frame [OF p] by (simp add: g')
    from q1 l1 e w tighter_qualifies [OF tg] show ?thesis by (simp add: g')
  qed
qed

lemma consistent_run_invariant:
  assumes d: "\<forall>w \<in> set wl. length w = 5" and t: "length target = 5"
  shows "consistent_run m wl target g \<Longrightarrow>
         word_list g = wl \<and> length (correct_positions g) = 5 \<and> qualifies g target"
proof (induction rule: consistent_run.induct)
  case (start g)
  then show ?case
    by (auto simp: guesser_init_def qualifies_def nth_replicate split: sum.splits)
next
  case (turn g result ord inp rs guess g' rs')
  from turn.IH d have d': "\<forall>w \<in> set (word_list g). length w = 5" by simp
  from consistent_turn [OF d' t _ _ turn.hyps(2,3)] turn.IH show ?case by simp
next
  case (again g)
  then show ?case by (simp add: restart_game_def qualifies_def)
qed

lemma init5: "guesser_init ''auto'' words5 = Inr (fresh words5 ''abcde'')"
  by (simp add: eval_analysis words5_def fresh_def)

lemma second_call_words5:
  "get_guess ord inp (opened words5 ''abcde'') ''+++++'' rs = Some (Inr (''fgghi'', two_tried, rs))"
  by (simp add: eval_get_guess words5_def two_tried_def)

lemma third_call_words5:
  "get_guess ord inp two_tried ''+g+++'' rs = Some (Inr (''kglmn'', three_tried, rs))"
  by (simp add: eval_get_guess words5_def two_tried_def three_tried_def
        best_scoring_def dict_keys_def word_score_def)

lemma consistent_plus: "consistent ''kglmn'' ''abcde'' ''+++++''"
  by (simp add: consistent_def all_less_5 not_isalpha_marks)

lemma consistent_repeated: "consistent ''kglmn'' ''fgghi'' ''+g+++''"
  unfolding consistent_def all_less_5
  by (simp add: not_isalpha_marks isalpha_lower) (rule exI [of _ 1], simp add: isalpha_lower)

lemma f2: "filtered_word_list two_tried = Inr [''fgghi'', ''kglmn'']"
  by (simp add: two_tried_def filtered_word_list_def word_passes_def opened_def fresh_def
        words5_def range5_def)

lemma f3: "filtered_word_list three_tried = Inr [''kglmn'']"
  by (simp add: three_tried_def two_tried_def filtered_word_list_def word_passes_def opened_def
        fresh_def words5_def range5_def)

text \<open>
  Claim C4. In a game on a dictionary of 5-letter words against a hidden word of the
  dictionary, where every feedback string is consistent with the hidden word and the
  previous guess, each returning call of \<^verbatim>\<open>get_guess\<close> leaves a candidate list whose
  words are all in the candidate list of the state before the call, and the hidden
  word stays a candidate. For a non-first call in auto mode the candidate list of the
  new state is the list the call computed.
\<close>

theorem candidates_shrink:
  assumes d: "\<forall>w \<in> set wl. length w = 5" and tw: "target \<in> set wl"
    and r: "consistent_run m wl target g"
    and c: "tried g = [] \<or> consistent target (last (tried g)) result"
    and gg: "get_guess ord inp g result rs = Some (Inr (guess, g', rs'))"
  shows "\<exists>c c'. filtered_word_list g = Inr c \<and> filtered_word_list g' = Inr c'
           \<and> set c' \<subseteq> set c \<and> target \<in> set c'
           \<and> (manual g \<noteq> ''manual'' \<and> tried g \<noteq> [] \<longrightarrow>
                (\<exists>guess1 g1 rs1. later_guess ord g result rs = Inr (guess1, c', g1, rs1)))"
proof -
  from d tw have t: "length target = 5" by simp
  from consistent_run_invariant [OF d t r]
  have w: "word_list g = wl" and l: "length (correct_positions g) = 5"
    and q: "qualifies g target" by simp_all
  from d w have d': "\<forall>w \<in> set (word_list g). length w = 5" by simp
  from consistent_turn [OF d' t l q c gg]
  have w': "word_list g' = wl" and l': "length (correct_positions g') = 5"
    and q': "qualifies g' target" and mono: "\<And>w. qualifies g' w \<Longrightarrow> qualifies g w"
    using w by simp_all
  from d w' have d'': "\<forall>w \<in> set (word_list g'). length w = 5" by simp
  have f: "filtered_word_list g = Inr (filter (qualifies g) wl)"
    using filtered_word_list_filter [OF d' l] w by simp
  have f': "filtered_word_list g' = Inr (filter (qualifies g') wl)"
    using filtered_word_list_filter [OF d'' l'] w' by simp
  have s: "set (filter (qualifies g') wl) \<subseteq> set (filter (qualifies g) wl)"
    using mono by auto
  have i: "target \<in> set (filter (qualifies g') wl)" using tw q' by simp
  have k: "manual g \<noteq> ''manual'' \<and> tried g \<noteq> [] \<longrightarrow>
        (\<exists>guess1 g1 rs1. later_guess ord g result rs
            = Inr (guess1, filter (qualifies g') wl, g1, rs1))"
  proof
    assume a: "manual g \<noteq> ''manual'' \<and> tried g \<noteq> []"
    from get_guess_step [OF conjunct1 [OF a] conjunct2 [OF a] gg] obtain guess1 fl g1 rs1 where
      lt: "later_guess ord g result rs = Inr (guess1, fl, g1, rs1)"
      and f1: "filtered_word_list g1 = Inr fl"
      and g': "g' = g1\<lparr>tried := tried g1 @ [guess], guess_count := guess_count g1 + 1\<rparr>"
      by blast
    from d'' l' have d1: "\<forall>w \<in> set (word_list g1). length w = 5"
      and l1: "length (correct_positions g1) = 5" and w1: "word_list g1 = wl"
      using w' by (simp_all add: g')
    have "qualifies g' = qualifies g1"
      by (rule ext, rule qualifies_fields) (simp_all add: g')
    with filtered_word_list_filter [OF d1 l1] w1 f1
    have "fl = filter (qualifies g') wl" by simp
    with lt show "\<exists>guess1 g1 rs1. later_guess ord g result rs
            = Inr (guess1, filter (qualifies g') wl, g1, rs1)" by blast
  qed
  from f f' s i k show ?thesis by blast
qed

theorem candidates_shrink_witness:
  "consistent_run ''auto'' words5 ''kglmn'' two_tried
   \<and> consistent ''kglmn'' (last (tried two_tried)) ''+g+++''
   \<and> get_guess remdups [] two_tried ''+g+++'' (sconst 0)
       = Some (Inr (''kglmn'', three_tried, sconst 0))
   \<and> filtered_word_list two_tried = Inr [''fgghi'', ''kglmn'']
   \<and> filtered_word_list three_tried = Inr [''kglmn'']
   \<and> (\<exists>c c'. filtered_word_list two_tried = Inr c \<and> filtered_word_list three_tried = Inr c'
           \<and> set c' \<subseteq> set c \<and> ''kglmn'' \<in> set c')"
proof -
  have d: "\<forall>w \<in> set words5. length w = 5" and tw: "''kglmn'' \<in> set words5"
    by (simp_all add: words5_def)
  have t1: "tried (opened words5 ''abcde'') = [''abcde'']"
    and t2: "tried two_tried = [''abcde'', ''fgghi'']"
    by (simp_all add: two_tried_def opened_def fresh_def)
  have r1: "consistent_run ''auto'' words5 ''kglmn'' (opened words5 ''abcde'')"
    by (rule consistent_run.turn [OF consistent_run.start [OF init5] _ first_call])
       (simp add: fresh_def)
  have r2: "consistent_run ''auto'' words5 ''kglmn'' two_tried"
    by (rule consistent_run.turn [OF r1 _ second_call_words5])
       (simp add: t1 consistent_plus)
  have c: "consistent ''kglmn'' (last (tried two_tried)) ''+g+++''"
    by (simp add: t2 consistent_repeated)
  from candidates_shrink [OF d tw r2 disjI2 [OF c] third_call_words5]
  have "\<exists>c c'. filtered_word_list two_tried = Inr c \<and> filtered_word_list three_tried = Inr c'
           \<and> set c' \<subseteq> set c \<and> ''kglmn'' \<in> set c'"
    by blast
  with r2 c third_call_words5 f2 f3 show ?thesis by blast
qed

subsection \<open>Confirmed letters are never invalid\<close>

text \<open>
  The half of the invariant that the code keeps: the exact-match branch removes the
  letter from \<^verbatim>\<open>_invalid_letters\<close>, and the \<^verbatim>\<open>+\<close> branch adds no letter of
  \<^verbatim>\<open>_correct_positions\<close>.
\<close>

lemma process_feedback_confirmed_valid:
  "confirmed_valid g \<Longrightarrow> process_feedback lg ps g = (e, g') \<Longrightarrow> confirmed_valid g'"
proof (induction lg ps g rule: process_feedback.induct)
  case (1 last_guess g)
  then show ?case by simp
next
  case (2 last_guess i c rest g)
  consider (exact) "isalpha c"
    | (present) "\<not> isalpha c" "c = CHR ''-''"
    | (absent) "\<not> isalpha c" "c \<noteq> CHR ''-''" "c = CHR ''+''"
    | (other) "\<not> isalpha c" "c \<noteq> CHR ''-''" "c \<noteq> CHR ''+''"
    by blast
  then show ?case
  proof cases
    case exact
    show ?thesis
    proof (cases "length last_guess \<le> i \<or> length (correct_positions g) \<le> i")
      case True
      with exact "2.prems" show ?thesis by (auto split: if_splits)
    next
      case False
      let ?g1 = "g\<lparr>correct_positions := (correct_positions g)[i := [last_guess ! i]],
                    invalid_letters :=
                      (if last_guess ! i \<in> invalid_letters g
                       then invalid_letters g - {last_guess ! i} else invalid_letters g)\<rparr>"
      have "confirmed_valid ?g1"
        unfolding confirmed_valid_def
      proof (intro allI impI)
        fix L assume "[L] \<in> set (correct_positions ?g1)"
        then have "[L] \<in> insert [last_guess ! i] (set (correct_positions g))"
          using set_update_subset_insert [of "correct_positions g" i "[last_guess ! i]"] by auto
        then have "L = last_guess ! i \<or> L \<notin> invalid_letters g"
          using "2.prems"(1) by (auto simp: confirmed_valid_def)
        then show "L \<notin> invalid_letters ?g1" by auto
      qed
      moreover have "process_feedback last_guess rest ?g1 = (e, g')"
        using "2.prems"(2) exact False by simp
      ultimately show ?thesis using "2.IH"(1) exact False by simp
    qed
  next
    case present
    show ?thesis
    proof (cases "length last_guess \<le> i")
      case True
      with present "2.prems" show ?thesis by auto
    next
      case False
      let ?g1 = "g\<lparr>misplaced_letters := (misplaced_letters g)
                     (last_guess ! i \<mapsto>
                        insert i (case misplaced_letters g (last_guess ! i) of
                                    None \<Rightarrow> {} | Some P \<Rightarrow> P))\<rparr>"
      have "confirmed_valid ?g1" using "2.prems"(1) by (simp add: confirmed_valid_def)
      moreover have "process_feedback last_guess rest ?g1 = (e, g')"
        using "2.prems"(2) present False by simp
      ultimately show ?thesis using "2.IH"(2) present False by simp
    qed
  next
    case absent
    show ?thesis
    proof (cases "length last_guess \<le> i")
      case True
      with absent "2.prems" show ?thesis by auto
    next
      case False
      show ?thesis
      proof (cases "misplaced_letters g (last_guess ! i) = None
                    \<and> [last_guess ! i] \<notin> set (correct_positions g)")
        case True
        let ?g1 = "g\<lparr>invalid_letters := insert (last_guess ! i) (invalid_letters g)\<rparr>"
        have "confirmed_valid ?g1" using "2.prems"(1) True by (auto simp: confirmed_valid_def)
        moreover have "process_feedback last_guess rest ?g1 = (e, g')"
          using "2.prems"(2) absent False True by simp
        ultimately show ?thesis using "2.IH"(3) absent False True by simp
      next
        case F: False
        have "process_feedback last_guess rest g = (e, g')"
          using "2.prems"(2) absent False F by auto
        then show ?thesis using "2.IH"(4) "2.prems"(1) absent False F by simp
      qed
    qed
  next
    case other
    have "process_feedback last_guess rest g = (e, g')"
      using "2.prems"(2) other by simp
    then show ?thesis using "2.IH"(5) "2.prems"(1) other by simp
  qed
qed

lemma reachable_confirmed_valid: "reachable m wl g \<Longrightarrow> confirmed_valid g"
proof (induction rule: reachable.induct)
  case (constructed g)
  then show ?case
    by (auto simp: guesser_init_def confirmed_valid_def split: sum.splits)
next
  case (guessed g ord inp result rs guess g' rs')
  show ?case
  proof (cases "manual g = ''manual''")
    case True
    with guessed show ?thesis by (simp add: get_guess_manual)
  next
    case False
    from get_guess_Inr [OF False guessed(2)] obtain g1 guess1 rs1 where
      h: "tried g = [] \<and> g1 = g \<or> (\<exists>f. later_guess ord g result rs = Inr (guess1, f, g1, rs1))"
      and g': "g' = g1\<lparr>tried := tried g1 @ [guess], guess_count := guess_count g1 + 1\<rparr>"
      by blast
    from h have "confirmed_valid g1"
      using guessed.IH later_guess_Inr process_feedback_confirmed_valid by blast
    then show ?thesis by (simp add: g' confirmed_valid_def)
  qed
next
  case (raised g ord inp result rs e g')
  from get_guess_Inl [OF raised(2)]
  have "g' = g \<or> (\<exists>x. process_feedback (last (tried g)) (enumerate 0 result) g = (x, g'))"
    using later_guess_Inl later_guess_Inr by blast
  with raised.IH process_feedback_confirmed_valid show ?case by blast
next
  case (restarted g)
  show ?case by (simp add: restart_game_def confirmed_valid_def)
qed

subsection \<open>The probe of the second guess\<close>

text \<open>The probe loop: at most 5 letters, each once, none of the first guess.\<close>

lemma build_probe_props:
  "distinct sg \<Longrightarrow> set sg \<subseteq> used \<Longrightarrow> set sg \<inter> fgl = {} \<Longrightarrow> length sg < 5 \<Longrightarrow>
   distinct (build_probe fgl ls (sg, used))
   \<and> set (build_probe fgl ls (sg, used)) \<inter> fgl = {}
   \<and> set (build_probe fgl ls (sg, used)) \<subseteq> set sg \<union> set ls
   \<and> length (build_probe fgl ls (sg, used)) \<le> 5"
proof (induction ls arbitrary: sg used)
  case Nil
  then show ?case by simp
next
  case (Cons letter ls)
  show ?case
  proof (cases "letter \<notin> fgl \<and> letter \<notin> used")
    case True
    with Cons.prems have n: "letter \<notin> set sg" by auto
    show ?thesis
    proof (cases "length (sg @ [letter]) = 5")
      case 5: True
      with True Cons.prems n show ?thesis by auto
    next
      case False
      with Cons.prems have l: "length (sg @ [letter]) < 5" by simp
      from Cons.IH [of "sg @ [letter]" "insert letter used"] Cons.prems n True l
      have "distinct (build_probe fgl ls (sg @ [letter], insert letter used))
          \<and> set (build_probe fgl ls (sg @ [letter], insert letter used)) \<inter> fgl = {}
          \<and> set (build_probe fgl ls (sg @ [letter], insert letter used))
               \<subseteq> set (sg @ [letter]) \<union> set ls
          \<and> length (build_probe fgl ls (sg @ [letter], insert letter used)) \<le> 5"
        by auto
      with True False show ?thesis by auto
    qed
  next
    case False
    from Cons.prems have "length sg \<noteq> 5" by simp
    with Cons.IH [of sg used] Cons.prems False show ?thesis by auto
  qed
qed

lemma second_guess_few_misplaced:
  assumes "card (dom (misplaced_letters g)) \<le> 2"
    and "\<forall>word \<in> set filtered. \<exists>letter \<in> set word. letter \<in> first_guess_letters g"
  shows "second_guess ord g filtered rs =
           (if length (build_probe (first_guess_letters g) (sorted_letters_of ord filtered) ([], {})) < 5
            then choice filtered rs
            else Inr (build_probe (first_guess_letters g) (sorted_letters_of ord filtered) ([], {}), rs))"
proof -
  from assms(1) have c: "\<not> 2 < card (dom (misplaced_letters g))" by simp
  from assms(2)
  have e: "filter (\<lambda>word. \<forall>letter \<in> set word. letter \<notin> first_guess_letters g) filtered = []"
    by (auto simp: filter_empty_conv)
  show ?thesis by (simp add: second_guess_def c e Let_def)
qed

subsection \<open>The guess counter\<close>

lemma reachable_count: "reachable m wl g \<Longrightarrow> guess_count g = int (length (tried g))"
proof (induction rule: reachable.induct)
  case (constructed g)
  then show ?case by (auto simp: guesser_init_def split: sum.splits)
next
  case (guessed g ord inp result rs guess g' rs')
  show ?case
  proof (cases "manual g = ''manual''")
    case True
    with guessed show ?thesis by (simp add: get_guess_manual)
  next
    case False
    from get_guess_returns [OF False guessed(2)] guessed(3) show ?thesis by simp
  qed
next
  case (raised g ord inp result rs e g')
  from get_guess_raises [OF raised(2)] raised(3) show ?case by (simp add: same_frame_def)
next
  case (restarted g)
  show ?case by (simp add: restart_game_def)
qed

text \<open>
  Claim C10. In every state an engine can reach (after construction, after every call
  of \<^verbatim>\<open>get_guess\<close>, returning or raising, and after every restart)
  \<^verbatim>\<open>guess_count\<close> is the length of \<^verbatim>\<open>_tried\<close>. The constructor leaves both empty
  and 0; a call in auto mode that returns appends exactly the returned guess to
  \<^verbatim>\<open>_tried\<close> and adds exactly one to \<^verbatim>\<open>guess_count\<close>; a restart sets
  \<^verbatim>\<open>_tried\<close> to the empty list and \<^verbatim>\<open>guess_count\<close> to 0 and keeps the first guess
  and the word list.
\<close>

theorem guess_count_is_length_tried:
  assumes "reachable m wl g"
  shows "guess_count g = int (length (tried g))
       \<and> (\<forall>g0. guesser_init m wl = Inr g0 \<longrightarrow> tried g0 = [] \<and> guess_count g0 = 0)
       \<and> (\<forall>ord inp result rs guess g' rs'.
            manual g \<noteq> ''manual''
            \<and> get_guess ord inp g result rs = Some (Inr (guess, g', rs')) \<longrightarrow>
              tried g' = tried g @ [guess] \<and> guess_count g' = guess_count g + 1
              \<and> guess_count g' = int (length (tried g')))
       \<and> tried (restart_game g) = [] \<and> guess_count (restart_game g) = 0
       \<and> first_guess (restart_game g) = first_guess g
       \<and> word_list (restart_game g) = word_list g"
proof -
  have c: "guess_count g = int (length (tried g))" by (rule reachable_count [OF assms])
  have i: "\<forall>g0. guesser_init m wl = Inr g0 \<longrightarrow> tried g0 = [] \<and> guess_count g0 = 0"
    by (auto simp: guesser_init_def split: sum.splits)
  have s: "\<forall>ord inp result rs guess g' rs'.
            manual g \<noteq> ''manual''
            \<and> get_guess ord inp g result rs = Some (Inr (guess, g', rs')) \<longrightarrow>
              tried g' = tried g @ [guess] \<and> guess_count g' = guess_count g + 1
              \<and> guess_count g' = int (length (tried g'))"
  proof (intro allI impI)
    fix ord inp result rs guess g' rs'
    assume a: "manual g \<noteq> ''manual''
            \<and> get_guess ord inp g result rs = Some (Inr (guess, g', rs'))"
    from get_guess_returns [OF conjunct1 [OF a] conjunct2 [OF a]] c
    show "tried g' = tried g @ [guess] \<and> guess_count g' = guess_count g + 1
              \<and> guess_count g' = int (length (tried g'))" by simp
  qed
  have r: "tried (restart_game g) = [] \<and> guess_count (restart_game g) = 0
       \<and> first_guess (restart_game g) = first_guess g
       \<and> word_list (restart_game g) = word_list g"
    by (simp add: restart_game_def)
  from c i s r show ?thesis by blast
qed

theorem guess_count_is_length_tried_witness:
  "reachable ''auto'' words1 (opened words1 ''abcde'')
   \<and> guess_count (opened words1 ''abcde'') = 1 \<and> tried (opened words1 ''abcde'') = [''abcde'']
   \<and> get_guess remdups [] (opened words1 ''abcde'') ''+++++'' (sconst 0)
       = Some (Inr (''fgghi'', after_two, sconst 0))
   \<and> reachable ''auto'' words1 after_two
   \<and> tried after_two = [''abcde'', ''fgghi''] \<and> guess_count after_two = 2
   \<and> reachable ''auto'' words1 (restart_game after_two)
   \<and> tried (restart_game after_two) = [] \<and> guess_count (restart_game after_two) = 0
   \<and> first_guess (restart_game after_two) = ''abcde''
   \<and> get_guess remdups [] (restart_game after_two) [] (sconst 0)
       = Some (Inr (''abcde'', opened words1 ''abcde'', sconst 0))"
proof -
  have r1: "reachable ''auto'' words1 (opened words1 ''abcde'')"
    by (rule opened_reachable [OF init1])
  have m1: "manual (opened words1 ''abcde'') \<noteq> ''manual''"
    and t1: "tried (opened words1 ''abcde'') = [''abcde'']"
    and c1: "guess_count (opened words1 ''abcde'') = 1"
    by (simp_all add: opened_def fresh_def)
  note call = second_call_words1 [of remdups "[]" "sconst 0"]
  have r2: "reachable ''auto'' words1 after_two"
    by (rule reachable.guessed [OF r1 call])
  have r3: "reachable ''auto'' words1 (restart_game after_two)"
    by (rule reachable.restarted [OF r2])
  from guess_count_is_length_tried [OF r1] m1 call t1 c1
  have 2: "tried after_two = [''abcde'', ''fgghi''] \<and> guess_count after_two = 2"
    by (metis append_Cons append_Nil one_add_one)
  from guess_count_is_length_tried [OF r2]
  have 3: "tried (restart_game after_two) = [] \<and> guess_count (restart_game after_two) = 0
       \<and> first_guess (restart_game after_two) = first_guess after_two" by blast
  have f: "first_guess after_two = ''abcde''"
    by (simp add: after_two_def opened_def fresh_def)
  have 4: "get_guess remdups [] (restart_game after_two) [] (sconst 0)
       = Some (Inr (''abcde'', opened words1 ''abcde'', sconst 0))"
    by (simp add: get_guess_def restart_game_def after_two_def opened_def fresh_def
          resample.simps replicate5)
  from r1 c1 t1 call r2 2 r3 3 f 4 show ?thesis by simp
qed

end
